theory Spec2Isabelle
  imports Complex_Main
begin

section \<open>Reservoir sampling operator (caffe2/operators/reservoir_sampling.cc)\<close>

text \<open>
  A shallow embedding of \<^verbatim>\<open>ReservoirSamplingOp::RunOnDevice\<close> and
  \<^verbatim>\<open>ReservoirSamplingOp::countNewEntries\<close>.

  Conventions.
  \<^item> \<^verbatim>\<open>int\<close>, \<^verbatim>\<open>int32_t\<close>, \<^verbatim>\<open>int64_t\<close>, \<^verbatim>\<open>TIndex\<close> and \<^verbatim>\<open>size_t\<close> values are
    modelled as \<open>int\<close>. Signed overflow is undefined in C++, so the embedding describes the
    executions in which every counter stays inside its machine type; the theorem on the
    increment of an arbitrary visit count has the bound \<open>INT64_MAX\<close> as a hypothesis.
  \<^item> A tensor is addressed by rows: row \<open>i\<close> of a tensor is the block of
    \<^verbatim>\<open>block_bytesize\<close> bytes at offset \<^verbatim>\<open>i * block_bytesize\<close>. The block type
    \<open>'b\<close> is opaque.
  \<^item> A failing \<^verbatim>\<open>CAFFE_ENFORCE\<close> throws; the operator mutates its operands in place, so
    the result of a run is the failure (if any) together with the workspace as the
    exception leaves it.
\<close>

subsection \<open>Failures\<close>

datatype enforce_failure =
    NumToCollectNotPositive  \<comment> \<open>line 19: \<^verbatim>\<open>CAFFE_ENFORCE(numToCollect_ > 0)\<close>\<close>
  | InputNdim                \<comment> \<open>line 26: \<^verbatim>\<open>CAFFE_ENFORCE_GE(input.ndim(), 1)\<close>\<close>
  | ReservoirNdim            \<comment> \<open>line 30: \<^verbatim>\<open>CAFFE_ENFORCE_EQ(output->ndim(), input.ndim())\<close>\<close>
  | ReservoirDim             \<comment> \<open>line 32: \<^verbatim>\<open>CAFFE_ENFORCE_EQ(output->dim(i), input.dim(i))\<close>\<close>
  | NumVisitedNdim           \<comment> \<open>line 65: \<^verbatim>\<open>CAFFE_ENFORCE_EQ(0, num_visited_tensor->ndim())\<close>\<close>
  | NumVisitedNegative       \<comment> \<open>line 67: \<^verbatim>\<open>CAFFE_ENFORCE_GE(*num_visited, 0)\<close>\<close>
  | ObjectIdNdim             \<comment> \<open>lines 86 and 158: \<^verbatim>\<open>CAFFE_ENFORCE_EQ(object_id.ndim(), 1)\<close>\<close>
  | ObjectIdSize             \<comment> \<open>line 87: \<^verbatim>\<open>CAFFE_ENFORCE_EQ(object_id.size(), num_entries)\<close>\<close>
  | DiscardBelowCapacity     \<comment> \<open>line 114: \<^verbatim>\<open>CAFFE_ENFORCE_GE(*num_visited, numToCollect_)\<close>\<close>
  | SanityCheck              \<comment> \<open>line 135: the end-of-batch check\<close>
  | MissingOperand           \<comment> \<open>line 160: \<^verbatim>\<open>Input(OBJECT_TO_POS_MAP_IN)\<close> with no such operand\<close>

datatype core_error =
  ConfigurationError | ShapeMismatch | SizeMismatch | InternalConsistencyFault

text \<open>The error taxonomy the specification gives to the enforce sites.\<close>

fun error_kind :: "enforce_failure \<Rightarrow> core_error" where
  "error_kind NumToCollectNotPositive = ConfigurationError"
| "error_kind InputNdim = ShapeMismatch"
| "error_kind ReservoirNdim = ShapeMismatch"
| "error_kind ReservoirDim = ShapeMismatch"
| "error_kind NumVisitedNdim = ShapeMismatch"
| "error_kind NumVisitedNegative = ConfigurationError"
| "error_kind ObjectIdNdim = ShapeMismatch"
| "error_kind ObjectIdSize = SizeMismatch"
| "error_kind DiscardBelowCapacity = InternalConsistencyFault"
| "error_kind SanityCheck = InternalConsistencyFault"
| "error_kind MissingOperand = ConfigurationError"

subsection \<open>Tensors\<close>

text \<open>
  The host tensor class (\<^verbatim>\<open>caffe2/core/tensor.h\<close>) is not part of the sources. A
  tensor is modelled by what the operator uses of it: its shape (\<^verbatim>\<open>dims()\<close>), its
  element type (\<^verbatim>\<open>meta()\<close>) and its storage, addressed by rows. \<^verbatim>\<open>ndim()\<close>,
  \<^verbatim>\<open>dim(i)\<close> and \<^verbatim>\<open>size()\<close> read the shape (here \<open>ndim\<close>, \<open>tdim\<close> and
  \<open>tsize\<close>); \<^verbatim>\<open>size()\<close> is the number of elements, the product of the dimensions.
  The operator calls \<^verbatim>\<open>dim(i)\<close> only with \<open>i\<close> below the number of dimensions.
\<close>

record ('b, 'm) tensor =
  dims :: "int list"
  meta :: 'm
  raw_data :: "int \<Rightarrow> 'b"

definition ndim :: "('b, 'm) tensor \<Rightarrow> int" where
  "ndim t = int (length (dims t))"

definition tdim :: "('b, 'm) tensor \<Rightarrow> nat \<Rightarrow> int" where
  "tdim t i = dims t ! i"

definition tsize :: "('b, 'm) tensor \<Rightarrow> int" where
  "tsize t = prod_list (dims t)"

text \<open>
  Modelled from the spec: the four operations of the tensor class that the operator
  calls. \<^verbatim>\<open>Reserve\<close> preallocates storage for the given shape without changing the
  occupied size or the stored rows; \<^verbatim>\<open>Resize\<close> sets the shape and keeps the rows stored
  so far; \<^verbatim>\<open>raw_mutable_data(meta)\<close> fixes the element type; \<^verbatim>\<open>CopyFrom\<close> adopts shape
  and element type of the source and copies its rows (none when the source has no
  elements).
\<close>

definition Reserve :: "int list \<Rightarrow> ('b, 'm) tensor \<Rightarrow> ('b, 'm) tensor" where
  "Reserve newCapacity t = t"

definition Resize :: "int list \<Rightarrow> ('b, 'm) tensor \<Rightarrow> ('b, 'm) tensor" where
  "Resize ds t = t\<lparr>dims := ds\<rparr>"

definition raw_mutable_data :: "'m \<Rightarrow> ('b, 'm) tensor \<Rightarrow> ('b, 'm) tensor" where
  "raw_mutable_data m t = t\<lparr>meta := m\<rparr>"

definition CopyFrom :: "('b, 'm) tensor \<Rightarrow> ('b, 'm) tensor \<Rightarrow> ('b, 'm) tensor" where
  "CopyFrom src t =
     t\<lparr>dims := dims src, meta := meta src,
       raw_data := (\<lambda>i. if 0 < tsize src \<and> 0 \<le> i
                            \<and> i < (case dims src of [] \<Rightarrow> 1 | n # _ \<Rightarrow> n)
                         then raw_data src i else raw_data t i)\<rparr>"

subsection \<open>Operands\<close>

text \<open>
  The in-place operands of the operator: \<^verbatim>\<open>RESERVOIR\<close>, \<^verbatim>\<open>NUM_VISITED\<close> (its shape and
  the 64-bit counter it holds), and the two optional index operands
  \<^verbatim>\<open>OBJECT_TO_POS_MAP\<close> (an \<^verbatim>\<open>unordered_map<int64_t, int32_t>\<close>) and
  \<^verbatim>\<open>POS_TO_OBJECT\<close> (an \<^verbatim>\<open>int64_t\<close> array addressed by slot). An optional operand is
  \<open>None\<close> when the operator was built without it (\<^verbatim>\<open>OutputSize() <= ...\<close>). The
  random generator of the context is part of the state.
\<close>

record ('b, 'm, 'g) workspace =
  RESERVOIR :: "('b, 'm) tensor"
  NUM_VISITED_dims :: "int list"
  NUM_VISITED :: int
  OBJECT_TO_POS_MAP :: "(int \<rightharpoonup> int) option"
  POS_TO_OBJECT :: "(int \<Rightarrow> int) option"
  RandGenerator :: 'g

text \<open>
  The largest value of \<^verbatim>\<open>int64_t\<close>, the type of the counter: \<^verbatim>\<open>++(*num_visited)\<close> at
  line 132 is defined only below it.
\<close>

definition INT64_MAX :: int where
  "INT64_MAX = 2 ^ 63 - 1"

text \<open>The read-only inputs of one call: the batch and, optionally, its object ids.\<close>

record ('b, 'm) batch =
  DATA :: "('b, 'm) tensor"
  OBJECT_ID :: "(int, 'm) tensor option"

text \<open>
  \<^verbatim>\<open>std::uniform_int_distribution<int64_t>(a, b)(gen)\<close> is library code: it is a
  parameter of the model, a function from the generator state and the two bounds to the
  drawn value and the next generator state. Its contract is that the value lies in the
  closed interval.
\<close>

type_synonym 'g uniform_int_distribution = "'g \<Rightarrow> int \<Rightarrow> int \<Rightarrow> int \<times> 'g"

definition draws_in_range :: "'g uniform_int_distribution \<Rightarrow> bool" where
  "draws_in_range uniformDist =
     (\<forall>g a b. a \<le> b \<longrightarrow> a \<le> fst (uniformDist g a b) \<and> fst (uniformDist g a b) \<le> b)"

text \<open>Two concrete generators: a constant one and a counter taken modulo the interval size.\<close>

definition const_draw :: "int \<Rightarrow> 'g uniform_int_distribution" where
  "const_draw r = (\<lambda>g a b. (r, g))"

definition counter_draw :: "int uniform_int_distribution" where
  "counter_draw = (\<lambda>g a b. (a + g mod (b - a + 1), g + 1))"

subsection \<open>The operator\<close>

text \<open>The constructor (lines 15--20).\<close>

definition ReservoirSamplingOp :: "int \<Rightarrow> enforce_failure + int" where
  "ReservoirSamplingOp num_to_collect =
     (if num_to_collect > 0 then Inr num_to_collect else Inl NumToCollectNotPositive)"

text \<open>\<^verbatim>\<open>MapType64To32::erase\<close> and \<^verbatim>\<open>emplace\<close> (which keeps an existing entry).\<close>

definition erase :: "(int \<rightharpoonup> int) \<Rightarrow> int \<Rightarrow> (int \<rightharpoonup> int)" where
  "erase m k = m(k := None)"

definition emplace :: "(int \<rightharpoonup> int) \<Rightarrow> int \<Rightarrow> int \<Rightarrow> (int \<rightharpoonup> int)" where
  "emplace m k v = (if m k = None then m(k \<mapsto> v) else m)"

text \<open>
  \<^verbatim>\<open>countNewEntries\<close> (lines 152--168). The ids scanned are the
  \<^verbatim>\<open>object_id.size()\<close> first entries of the id tensor.
\<close>

definition object_ids :: "(int, 'm) tensor \<Rightarrow> int list" where
  "object_ids t = map (\<lambda>i. raw_data t (int i)) [0..<nat (tsize t)]"

definition countNewEntries ::
  "('b, 'm) batch \<Rightarrow> ('b, 'm, 'g) workspace \<Rightarrow> enforce_failure + int" where
  "countNewEntries inp ws =
     (case OBJECT_ID inp of
        None \<Rightarrow> Inr (tdim (DATA inp) 0)
      | Some object_id \<Rightarrow>
          if ndim object_id \<noteq> 1 then Inl ObjectIdNdim
          else (case OBJECT_TO_POS_MAP ws of
                  None \<Rightarrow> Inl MissingOperand
                | Some object_to_pos_map \<Rightarrow>
                    Inr (int (length (filter (\<lambda>oid. object_to_pos_map oid = None)
                                             (object_ids object_id))))))"

text \<open>
  The test at the head of the loop body (lines 92--96): the row is already in the pool.
  The pointer \<^verbatim>\<open>object_id_data\<close> is declared without a value at line 83 and assigned
  only when there is an id input; the model takes it for null otherwise, as the guards at
  lines 92 and 123 presuppose.
\<close>

definition already_in_pool ::
  "('b, 'm) batch \<Rightarrow> ('b, 'm, 'g) workspace \<Rightarrow> int \<Rightarrow> bool" where
  "already_in_pool inp ws i =
     (case (OBJECT_ID inp, OBJECT_TO_POS_MAP ws) of
        (Some object_id, Some object_to_pos_map) \<Rightarrow>
           object_to_pos_map (raw_data object_id i) \<noteq> None
      | _ \<Rightarrow> False)"

text \<open>
  The choice of the target slot (lines 97--110): the slot, or \<open>-1\<close> for a discard, and
  the generator after the draw (if any).
\<close>

definition choose_pos ::
  "'g uniform_int_distribution \<Rightarrow> int \<Rightarrow> int \<Rightarrow> 'g \<Rightarrow> int \<times> 'g" where
  "choose_pos uniformDist numToCollect num_visited gen =
     (if num_visited < numToCollect then (num_visited, gen)
      else (let (pos, gen') = uniformDist gen 0 num_visited
            in (if pos \<ge> numToCollect then (-1, gen') else (pos, gen'))))"

text \<open>The update of the two indexes on a write (lines 123--129).\<close>

definition bind_object ::
  "('b, 'm) batch \<Rightarrow> int \<Rightarrow> int \<Rightarrow> ('b, 'm, 'g) workspace \<Rightarrow> ('b, 'm, 'g) workspace" where
  "bind_object inp i pos ws =
     (case (OBJECT_ID inp, POS_TO_OBJECT ws, OBJECT_TO_POS_MAP ws) of
        (Some object_id, Some pos_to_object_data, Some object_to_pos_map) \<Rightarrow>
          (let old_oid = pos_to_object_data pos;
               new_oid = raw_data object_id i
           in ws\<lparr>POS_TO_OBJECT := Some (pos_to_object_data(pos := new_oid)),
                 OBJECT_TO_POS_MAP := Some (emplace (erase object_to_pos_map old_oid) new_oid pos)\<rparr>)
      | _ \<Rightarrow> ws)"

text \<open>\<^verbatim>\<open>CopyItems\<close> of row \<open>i\<close> of the input into slot \<open>pos\<close> of the reservoir.\<close>

definition copy_block ::
  "('b, 'm) batch \<Rightarrow> int \<Rightarrow> int \<Rightarrow> ('b, 'm, 'g) workspace \<Rightarrow> ('b, 'm, 'g) workspace" where
  "copy_block inp i pos ws =
     ws\<lparr>RESERVOIR := (RESERVOIR ws)\<lparr>raw_data :=
           (raw_data (RESERVOIR ws))(pos := raw_data (DATA inp) i)\<rparr>\<rparr>"

text \<open>One iteration of the loop (lines 92--132).\<close>

definition sample_row ::
  "'g uniform_int_distribution \<Rightarrow> int \<Rightarrow> ('b, 'm) batch \<Rightarrow> int \<Rightarrow>
   ('b, 'm, 'g) workspace \<Rightarrow> enforce_failure option \<times> ('b, 'm, 'g) workspace" where
  "sample_row uniformDist numToCollect inp i ws =
     (if already_in_pool inp ws i then (None, ws)
      else
        (let (pos, gen') = choose_pos uniformDist numToCollect (NUM_VISITED ws) (RandGenerator ws);
             ws1 = ws\<lparr>RandGenerator := gen'\<rparr>
         in if pos < 0 then
              (if NUM_VISITED ws1 \<ge> numToCollect
               then (None, ws1\<lparr>NUM_VISITED := NUM_VISITED ws1 + 1\<rparr>)
               else (Some DiscardBelowCapacity, ws1))
            else
              (let ws2 = bind_object inp i pos (copy_block inp i pos ws1)
               in (None, ws2\<lparr>NUM_VISITED := NUM_VISITED ws2 + 1\<rparr>))))"

text \<open>The loop \<^verbatim>\<open>for (int i = 0; i < num_entries; ++i)\<close>, from index \<open>i\<close> on.\<close>

function sample_rows ::
  "'g uniform_int_distribution \<Rightarrow> int \<Rightarrow> ('b, 'm) batch \<Rightarrow> int \<Rightarrow> int \<Rightarrow>
   ('b, 'm, 'g) workspace \<Rightarrow> enforce_failure option \<times> ('b, 'm, 'g) workspace" where
  "sample_rows uniformDist numToCollect inp i num_entries ws =
     (if i < num_entries then
        (case sample_row uniformDist numToCollect inp i ws of
           (Some e, ws') \<Rightarrow> (Some e, ws')
         | (None, ws') \<Rightarrow> sample_rows uniformDist numToCollect inp (i + 1) num_entries ws')
      else (None, ws))"
  by pat_completeness auto
termination
  by (relation "measure (\<lambda>(uniformDist, numToCollect, inp, i, num_entries, ws). nat (num_entries - i))")
     auto

text \<open>The shape checks at the head of \<^verbatim>\<open>RunOnDevice\<close> (lines 26--34).\<close>

definition check_shapes :: "('b, 'm) tensor \<Rightarrow> ('b, 'm) tensor \<Rightarrow> enforce_failure option" where
  "check_shapes input output =
     (if ndim input < 1 then Some InputNdim
      else if tsize output > 0 then
        (if ndim output \<noteq> ndim input then Some ReservoirNdim
         else if list_ex (\<lambda>i. tdim output i \<noteq> tdim input i) [1..<length (dims input)]
              then Some ReservoirDim
         else None)
      else None)"

text \<open>The checks of the id input before the loop (lines 84--89).\<close>

definition check_object_id :: "('b, 'm) batch \<Rightarrow> int \<Rightarrow> enforce_failure option" where
  "check_object_id inp num_entries =
     (case OBJECT_ID inp of
        None \<Rightarrow> None
      | Some object_id \<Rightarrow>
          if ndim object_id \<noteq> 1 then Some ObjectIdNdim
          else if tsize object_id \<noteq> num_entries then Some ObjectIdSize
          else None)"

text \<open>
  \<^verbatim>\<open>RunOnDevice\<close> (lines 22--137) in three parts. The result of a run is \<open>None\<close> when
  the operator returns \<^verbatim>\<open>true\<close>, and the enforce that failed otherwise, with the
  workspace at that point.

  The first part is everything before the loop (lines 22--89): it either ends the call
  (\<open>Inl\<close>: an enforce failed, or the batch is empty) or reaches the loop (\<open>Inr\<close>) with
  \<^verbatim>\<open>num_entries\<close>, \<^verbatim>\<open>num_new_entries\<close> and the workspace.
\<close>

definition before_loop ::
  "int \<Rightarrow> ('b, 'm) batch \<Rightarrow> ('b, 'm, 'g) workspace \<Rightarrow>
   (enforce_failure option \<times> ('b, 'm, 'g) workspace) + (int \<times> int \<times> ('b, 'm, 'g) workspace)" where
  "before_loop numToCollect inp ws =
     (let input = DATA inp in
      case check_shapes input (RESERVOIR ws) of
        Some e \<Rightarrow> Inl (Some e, ws)
      | None \<Rightarrow>
     (let output_initialized = (tsize (RESERVOIR ws) > 0);
          num_entries = tdim input 0;
          dims0 = (dims input)[0 := numToCollect];
          ws0 = ws\<lparr>RESERVOIR := Reserve dims0 (RESERVOIR ws)\<rparr>
      in if num_entries = 0 then
           (if \<not> output_initialized
            then Inl (None, ws0\<lparr>RESERVOIR := CopyFrom input (RESERVOIR ws0)\<rparr>)
            else Inl (None, ws0))
         else
      case countNewEntries inp ws0 of
        Inl e \<Rightarrow> Inl (Some e, ws0)
      | Inr num_new_entries \<Rightarrow>
     (let num_to_copy = min num_new_entries numToCollect;
          output_batch_size = (if output_initialized then tdim (RESERVOIR ws0) 0 else 0);
          dims1 = dims0[0 := min numToCollect (output_batch_size + num_to_copy)];
          ws1 = (if output_batch_size < numToCollect
                 then ws0\<lparr>RESERVOIR := Resize dims1 (RESERVOIR ws0)\<rparr> else ws0);
          ws2 = ws1\<lparr>RESERVOIR := raw_mutable_data (meta input) (RESERVOIR ws1)\<rparr>
      in if NUM_VISITED_dims ws2 \<noteq> [] then Inl (Some NumVisitedNdim, ws2)
         else if NUM_VISITED ws2 < 0 then Inl (Some NumVisitedNegative, ws2)
         else
     (let ws3 = (if POS_TO_OBJECT ws2 \<noteq> None \<and> output_batch_size < numToCollect
                 then ws2\<lparr>RESERVOIR := Resize dims1 (RESERVOIR ws2)\<rparr> else ws2)
      in case check_object_id inp num_entries of
           Some e \<Rightarrow> Inl (Some e, ws3)
         | None \<Rightarrow> Inr (num_entries, num_new_entries, ws3)))))"

text \<open>The check after the loop (lines 134--136).\<close>

definition sanity_check ::
  "int \<Rightarrow> int \<Rightarrow> enforce_failure option \<times> ('b, 'm, 'g) workspace \<Rightarrow>
   enforce_failure option \<times> ('b, 'm, 'g) workspace" where
  "sanity_check start_num_visited num_new_entries out =
     (case out of
        (Some e, ws4) \<Rightarrow> (Some e, ws4)
      | (None, ws4) \<Rightarrow>
          if NUM_VISITED ws4 = start_num_visited + num_new_entries
          then (None, ws4) else (Some SanityCheck, ws4))"

definition RunOnDevice ::
  "'g uniform_int_distribution \<Rightarrow> int \<Rightarrow> ('b, 'm) batch \<Rightarrow>
   ('b, 'm, 'g) workspace \<Rightarrow> enforce_failure option \<times> ('b, 'm, 'g) workspace" where
  "RunOnDevice uniformDist numToCollect inp ws =
     (case before_loop numToCollect inp ws of
        Inl out \<Rightarrow> out
      | Inr (num_entries, num_new_entries, ws3) \<Rightarrow>
          sanity_check (NUM_VISITED ws3) num_new_entries
            (sample_rows uniformDist numToCollect inp 0 num_entries ws3))"

text \<open>Successive calls of the operator on a stream of batches; the first failure ends it.\<close>

fun feed ::
  "'g uniform_int_distribution \<Rightarrow> int \<Rightarrow> ('b, 'm) batch list \<Rightarrow>
   ('b, 'm, 'g) workspace \<Rightarrow> enforce_failure option \<times> ('b, 'm, 'g) workspace" where
  "feed uniformDist numToCollect [] ws = (None, ws)"
| "feed uniformDist numToCollect (inp # inps) ws =
     (case RunOnDevice uniformDist numToCollect inp ws of
        (Some e, ws') \<Rightarrow> (Some e, ws')
      | (None, ws') \<Rightarrow> feed uniformDist numToCollect inps ws')"

subsection \<open>Concrete operands\<close>

text \<open>
  A tensor holding the given rows, each of shape \<open>shape\<close>; storage outside the rows holds
  \<open>d\<close>.
\<close>

definition rows_tensor :: "'m \<Rightarrow> int list \<Rightarrow> 'b \<Rightarrow> 'b list \<Rightarrow> ('b, 'm) tensor" where
  "rows_tensor m shape d xs =
     \<lparr>dims = int (length xs) # shape, meta = m,
      raw_data = (\<lambda>i. if 0 \<le> i \<and> i < int (length xs) then xs ! nat i else d)\<rparr>"

text \<open>A batch of keyed rows (key, block).\<close>

definition keyed_batch :: "'m \<Rightarrow> int list \<Rightarrow> 'b \<Rightarrow> (int \<times> 'b) list \<Rightarrow> ('b, 'm) batch" where
  "keyed_batch m shape d kxs =
     \<lparr>DATA = rows_tensor m shape d (map snd kxs),
      OBJECT_ID = Some (rows_tensor m [] 0 (map fst kxs))\<rparr>"

text \<open>
  The state the caller creates: an empty reservoir, a scalar counter holding 0, an empty
  map, and owner storage filled with \<open>fill\<close>.
\<close>

definition empty_workspace :: "'m \<Rightarrow> 'b \<Rightarrow> int \<Rightarrow> 'g \<Rightarrow> ('b, 'm, 'g) workspace" where
  "empty_workspace m d fill g =
     \<lparr>RESERVOIR = rows_tensor m [] d [], NUM_VISITED_dims = [], NUM_VISITED = 0,
      OBJECT_TO_POS_MAP = Some Map.empty, POS_TO_OBJECT = Some (\<lambda>pos. fill),
      RandGenerator = g\<rparr>"

text \<open>A reservoir of capacity 2 holding one row, owned by key 7.\<close>

definition example_pool :: "(char, nat, int) workspace" where
  "example_pool =
     \<lparr>RESERVOIR = rows_tensor 1 [] (CHR ''_'') [CHR ''a''], NUM_VISITED_dims = [],
      NUM_VISITED = 1, OBJECT_TO_POS_MAP = Some [7 \<mapsto> 0],
      POS_TO_OBJECT = Some ((\<lambda>pos. 0)(0 := 7)), RandGenerator = 0\<rparr>"

subsection \<open>Streams of keyed rows\<close>

text \<open>
  The state after the first \<open>t\<close> rows of a stream \<open>kxs\<close> of keyed rows with pairwise
  distinct keys have gone through the loop: the counter is \<open>t\<close>; the map knows only keys
  of these rows; every occupied slot holds one of these rows, with its key in the owner
  array, and no two occupied slots have the same owner; as long as \<open>t\<close> does not exceed
  the capacity, slot \<open>j\<close> holds row \<open>j\<close>.
\<close>

definition sampled :: "int \<Rightarrow> (int \<times> 'b) list \<Rightarrow> nat \<Rightarrow> ('b, 'm, 'g) workspace \<Rightarrow> bool" where
  "sampled numToCollect kxs t ws \<longleftrightarrow>
     NUM_VISITED ws = int t \<and> NUM_VISITED_dims ws = [] \<and>
     (\<exists>object_to_pos_map pos_to_object.
        OBJECT_TO_POS_MAP ws = Some object_to_pos_map \<and>
        POS_TO_OBJECT ws = Some pos_to_object \<and>
        dom object_to_pos_map \<subseteq> fst ` set (take t kxs) \<and>
        (\<forall>pos. 0 \<le> pos \<and> pos < min numToCollect (int t) \<longrightarrow>
           (pos_to_object pos, raw_data (RESERVOIR ws) pos) \<in> set (take t kxs)) \<and>
        inj_on pos_to_object {0..<min numToCollect (int t)} \<and>
        (int t \<le> numToCollect \<longrightarrow>
           (\<forall>j<t. (pos_to_object (int j), raw_data (RESERVOIR ws) (int j)) = kxs ! j)))"

text \<open>
  Between two calls, in addition, the shape of the reservoir: \<open>min numToCollect t\<close> rows
  of shape \<open>shape\<close> once a row with at least one element has arrived, and a reservoir of
  no positive size otherwise.
\<close>

definition between_calls ::
  "int \<Rightarrow> int list \<Rightarrow> (int \<times> 'b) list \<Rightarrow> nat \<Rightarrow> ('b, 'm, 'g) workspace \<Rightarrow> bool" where
  "between_calls numToCollect shape kxs t ws \<longleftrightarrow>
     sampled numToCollect kxs t ws \<and>
     (if 0 < prod_list shape \<and> 0 < t
      then dims (RESERVOIR ws) = min numToCollect (int t) # shape
      else \<not> 0 < tsize (RESERVOIR ws))"

subsection \<open>The distribution of the draws\<close>

text \<open>
  Every draw at line 105 is uniform on \<open>[0, num_visited]\<close>: each of the
  \<open>num_visited + 1\<close> values has the same weight. The expected value of a function of the
  outcome is computed by running the code on every value the draw can take
  (\<open>const_draw\<close>) and averaging. An iteration reaches the draw when the row is not
  skipped and the visit count has reached the capacity.
\<close>

definition reaches_draw :: "int \<Rightarrow> ('b, 'm) batch \<Rightarrow> int \<Rightarrow> ('b, 'm, 'g) workspace \<Rightarrow> bool" where
  "reaches_draw numToCollect inp i ws \<longleftrightarrow>
     \<not> already_in_pool inp ws i \<and> \<not> NUM_VISITED ws < numToCollect"

definition sample_row_expect ::
  "int \<Rightarrow> ('b, 'm) batch \<Rightarrow> int \<Rightarrow> ('b, 'm, 'g) workspace \<Rightarrow>
   (enforce_failure option \<times> ('b, 'm, 'g) workspace \<Rightarrow> rat) \<Rightarrow> rat" where
  "sample_row_expect numToCollect inp i ws f =
     (if reaches_draw numToCollect inp i ws
      then (\<Sum>pos\<leftarrow>[0..NUM_VISITED ws]. f (sample_row (const_draw pos) numToCollect inp i ws))
             / of_int (NUM_VISITED ws + 1)
      else f (sample_row (const_draw 0) numToCollect inp i ws))"

function sample_rows_expect ::
  "int \<Rightarrow> ('b, 'm) batch \<Rightarrow> int \<Rightarrow> int \<Rightarrow> ('b, 'm, 'g) workspace \<Rightarrow>
   (enforce_failure option \<times> ('b, 'm, 'g) workspace \<Rightarrow> rat) \<Rightarrow> rat" where
  "sample_rows_expect numToCollect inp i num_entries ws f =
     (if i < num_entries then
        sample_row_expect numToCollect inp i ws
          (\<lambda>out. case out of
                    (Some e, ws') \<Rightarrow> f (Some e, ws')
                  | (None, ws') \<Rightarrow> sample_rows_expect numToCollect inp (i + 1) num_entries ws' f)
      else f (None, ws))"
  by pat_completeness auto
termination
  by (relation "measure (\<lambda>(numToCollect, inp, i, num_entries, ws, f). nat (num_entries - i))")
     auto

definition RunOnDevice_expect ::
  "int \<Rightarrow> ('b, 'm) batch \<Rightarrow> ('b, 'm, 'g) workspace \<Rightarrow>
   (enforce_failure option \<times> ('b, 'm, 'g) workspace \<Rightarrow> rat) \<Rightarrow> rat" where
  "RunOnDevice_expect numToCollect inp ws f =
     (case before_loop numToCollect inp ws of
        Inl out \<Rightarrow> f out
      | Inr (num_entries, num_new_entries, ws3) \<Rightarrow>
          sample_rows_expect numToCollect inp 0 num_entries ws3
            (\<lambda>out. f (sanity_check (NUM_VISITED ws3) num_new_entries out)))"

fun feed_expect ::
  "int \<Rightarrow> ('b, 'm) batch list \<Rightarrow> ('b, 'm, 'g) workspace \<Rightarrow>
   (enforce_failure option \<times> ('b, 'm, 'g) workspace \<Rightarrow> rat) \<Rightarrow> rat" where
  "feed_expect numToCollect [] ws f = f (None, ws)"
| "feed_expect numToCollect (inp # inps) ws f =
     RunOnDevice_expect numToCollect inp ws
       (\<lambda>out. case out of
                 (Some e, ws') \<Rightarrow> f (Some e, ws')
               | (None, ws') \<Rightarrow> feed_expect numToCollect inps ws' f)"

text \<open>
  The reservoir holds a keyed row when some slot below the capacity that has been
  written holds its block and is owned by its key; \<open>present\<close> is the indicator of that
  event on the outcomes without failure.
\<close>

definition holds_row :: "int \<Rightarrow> int \<times> 'b \<Rightarrow> ('b, 'm, 'g) workspace \<Rightarrow> bool" where
  "holds_row numToCollect kx ws \<longleftrightarrow>
     (case POS_TO_OBJECT ws of
        None \<Rightarrow> False
      | Some pos_to_object \<Rightarrow>
          list_ex (\<lambda>pos. pos < NUM_VISITED ws \<and> pos_to_object pos = fst kx
                          \<and> raw_data (RESERVOIR ws) pos = snd kx)
                  [0..numToCollect - 1])"

definition present ::
  "int \<Rightarrow> int \<times> 'b \<Rightarrow> enforce_failure option \<times> ('b, 'm, 'g) workspace \<Rightarrow> rat" where
  "present numToCollect kx out =
     (if fst out = None \<and> holds_row numToCollect kx (snd out) then 1 else 0)"

text \<open>
  The chance that the reservoir holds row \<open>kx\<close> of the stream \<open>kxs\<close> at the end, seen
  from a state reached after \<open>t\<close> rows.
\<close>

definition inclusion_chance ::
  "int \<Rightarrow> (int \<times> 'b) list \<Rightarrow> int \<times> 'b \<Rightarrow> nat \<Rightarrow> ('b, 'm, 'g) workspace \<Rightarrow> rat" where
  "inclusion_chance numToCollect kxs kx t ws =
     (if holds_row numToCollect kx ws
      then of_int (max (int t) numToCollect) / of_nat (length kxs)
      else if kx \<in> set (drop t kxs) then of_int numToCollect / of_nat (length kxs)
      else 0)"

section \<open>Basic facts\<close>

declare sample_rows.simps [simp del]

lemma bind_object_fields:
  "RESERVOIR (bind_object inp i pos ws) = RESERVOIR ws"
  "NUM_VISITED (bind_object inp i pos ws) = NUM_VISITED ws"
  "NUM_VISITED_dims (bind_object inp i pos ws) = NUM_VISITED_dims ws"
  "RandGenerator (bind_object inp i pos ws) = RandGenerator ws"
  by (simp_all add: bind_object_def Let_def split: option.splits)

lemma copy_block_fields:
  "raw_data (RESERVOIR (copy_block inp i pos ws)) = (raw_data (RESERVOIR ws))(pos := raw_data (DATA inp) i)"
  "dims (RESERVOIR (copy_block inp i pos ws)) = dims (RESERVOIR ws)"
  "meta (RESERVOIR (copy_block inp i pos ws)) = meta (RESERVOIR ws)"
  "NUM_VISITED (copy_block inp i pos ws) = NUM_VISITED ws"
  "NUM_VISITED_dims (copy_block inp i pos ws) = NUM_VISITED_dims ws"
  "RandGenerator (copy_block inp i pos ws) = RandGenerator ws"
  "OBJECT_TO_POS_MAP (copy_block inp i pos ws) = OBJECT_TO_POS_MAP ws"
  "POS_TO_OBJECT (copy_block inp i pos ws) = POS_TO_OBJECT ws"
  by (simp_all add: copy_block_def)

lemma draws_in_rangeD:
  "draws_in_range uniformDist \<Longrightarrow> a \<le> b \<Longrightarrow> uniformDist g a b = (r, g') \<Longrightarrow> a \<le> r \<and> r \<le> b"
  unfolding draws_in_range_def by (metis fst_conv)

text \<open>
  The slot chosen for a row is the discard marker or lies below the capacity, whatever
  the generator returns; while the reservoir is not full it is the visit count.
\<close>

lemma choose_pos_below:
  assumes "choose_pos uniformDist numToCollect v g = (pos, g')"
  shows "pos < numToCollect \<or> pos = -1" and "v < numToCollect \<Longrightarrow> pos = v"
    and "pos < 0 \<Longrightarrow> 0 \<le> v \<Longrightarrow> numToCollect \<le> v"
  using assms
  by (auto simp: choose_pos_def Let_def split: if_splits prod.splits)

text \<open>What one iteration can do, by cases.\<close>

lemma sample_row_cases:
  assumes "sample_row uniformDist numToCollect inp i ws = (res, ws')"
  obtains
    (skip) "already_in_pool inp ws i" "res = None" "ws' = ws"
  | (fail) pos g' where "\<not> already_in_pool inp ws i"
      "choose_pos uniformDist numToCollect (NUM_VISITED ws) (RandGenerator ws) = (pos, g')"
      "pos < 0" "NUM_VISITED ws < numToCollect" "res = Some DiscardBelowCapacity"
      "ws' = ws\<lparr>RandGenerator := g'\<rparr>"
  | (discard) pos g' where "\<not> already_in_pool inp ws i"
      "choose_pos uniformDist numToCollect (NUM_VISITED ws) (RandGenerator ws) = (pos, g')"
      "pos < 0" "NUM_VISITED ws \<ge> numToCollect" "res = None"
      "ws' = ws\<lparr>RandGenerator := g', NUM_VISITED := NUM_VISITED ws + 1\<rparr>"
  | (store) pos g' where "\<not> already_in_pool inp ws i"
      "choose_pos uniformDist numToCollect (NUM_VISITED ws) (RandGenerator ws) = (pos, g')"
      "0 \<le> pos" "res = None"
      "ws' = (bind_object inp i pos (copy_block inp i pos (ws\<lparr>RandGenerator := g'\<rparr>)))
               \<lparr>NUM_VISITED := NUM_VISITED ws + 1\<rparr>"
proof (cases "already_in_pool inp ws i")
  case True
  from assms True have "res = None" "ws' = ws" by (simp_all add: sample_row_def)
  with True show ?thesis by (rule skip)
next
  case False
  obtain pos g' where c: "choose_pos uniformDist numToCollect (NUM_VISITED ws) (RandGenerator ws) = (pos, g')"
    by (cases "choose_pos uniformDist numToCollect (NUM_VISITED ws) (RandGenerator ws)")
  show ?thesis
  proof (cases "pos < 0")
    case neg: True
    show ?thesis
    proof (cases "NUM_VISITED ws \<ge> numToCollect")
      case True
      from assms False c neg True
      have "res = None" "ws' = ws\<lparr>RandGenerator := g', NUM_VISITED := NUM_VISITED ws + 1\<rparr>"
        by (simp_all add: sample_row_def Let_def)
      with False c neg True show ?thesis by (rule discard)
    next
      case lt: False
      from assms False c neg lt
      have "res = Some DiscardBelowCapacity" "ws' = ws\<lparr>RandGenerator := g'\<rparr>"
        by (simp_all add: sample_row_def Let_def)
      with False c neg lt show ?thesis by (intro fail) simp_all
    qed
  next
    case nonneg: False
    from assms False c nonneg
    have "res = None"
      "ws' = (bind_object inp i pos (copy_block inp i pos (ws\<lparr>RandGenerator := g'\<rparr>)))
               \<lparr>NUM_VISITED := NUM_VISITED ws + 1\<rparr>"
      by (simp_all add: sample_row_def Let_def bind_object_fields copy_block_fields)
    with False c nonneg show ?thesis by (intro store) simp_all
  qed
qed

lemma sample_rows_invariant:
  assumes "P ws"
    and "\<And>i ws. P ws \<Longrightarrow> P (snd (sample_row uniformDist numToCollect inp i ws))"
  shows "P (snd (sample_rows uniformDist numToCollect inp i num_entries ws))"
  using assms
proof (induction uniformDist numToCollect inp i num_entries ws rule: sample_rows.induct)
  case (1 uniformDist numToCollect inp i num_entries ws)
  note step = "1.prems"(2)
  show ?case
  proof (cases "i < num_entries")
    case False
    with "1.prems"(1) show ?thesis by (simp add: sample_rows.simps)
  next
    case True
    obtain res ws' where r: "sample_row uniformDist numToCollect inp i ws = (res, ws')"
      by (cases "sample_row uniformDist numToCollect inp i ws")
    have P': "P ws'" using step [OF "1.prems"(1), of i] unfolding r snd_conv .
    show ?thesis
    proof (cases res)
      case None
      from "1.IH" [OF True r [symmetric] None P' step] True r None show ?thesis
        by (simp add: sample_rows.simps [of uniformDist numToCollect inp i])
    next
      case (Some e)
      with True r P' show ?thesis
        by (simp add: sample_rows.simps [of uniformDist numToCollect inp i])
    qed
  qed
qed


lemma draws_in_range_counter: "draws_in_range counter_draw"
  unfolding draws_in_range_def counter_draw_def
proof (intro allI impI)
  fix g a b :: int assume "a \<le> b"
  then have pos: "0 < b - a + 1" by simp
  have "0 \<le> g mod (b - a + 1)" using pos by (rule pos_mod_sign)
  moreover have "g mod (b - a + 1) < b - a + 1" using pos by (rule pos_mod_bound)
  ultimately show "a \<le> fst (a + g mod (b - a + 1), g + 1) \<and> fst (a + g mod (b - a + 1), g + 1) \<le> b"
    unfolding fst_conv by linarith
qed

lemmas operand_defs = keyed_batch_def rows_tensor_def empty_workspace_def

lemmas operator_defs = RunOnDevice_def before_loop_def check_shapes_def check_object_id_def
  countNewEntries_def object_ids_def sanity_check_def sample_row_def already_in_pool_def
  choose_pos_def bind_object_def copy_block_def erase_def emplace_def
  ndim_def tdim_def tsize_def Reserve_def Resize_def raw_mutable_data_def CopyFrom_def

lemma check_shapes_dims: "check_shapes input output = None \<Longrightarrow> dims input \<noteq> []"
  by (auto simp: check_shapes_def ndim_def split: if_splits)

lemma CopyFrom_empty:
  assumes "dims src \<noteq> []" "tdim src 0 = 0"
  shows "CopyFrom src t = t\<lparr>dims := dims src, meta := meta src\<rparr>"
proof -
  from assms obtain ds where ds: "dims src = 0 # ds"
    by (cases "dims src") (simp_all add: tdim_def)
  have "(\<lambda>i. if 0 < tsize src \<and> 0 \<le> i \<and> i < (0::int) then raw_data src i else raw_data t i)
        = raw_data t"
    by (rule ext) auto
  with ds show ?thesis by (simp add: CopyFrom_def)
qed

text \<open>Before the loop only the shape and the element type of the reservoir can change.\<close>

lemma before_loop_Inl:
  assumes "before_loop numToCollect inp ws = Inl (res, ws')"
  shows "ws' = ws\<lparr>RESERVOIR := (RESERVOIR ws)\<lparr>dims := dims (RESERVOIR ws'),
                                               meta := meta (RESERVOIR ws')\<rparr>\<rparr>"
  using assms
  by (auto simp: before_loop_def Let_def Reserve_def Resize_def raw_mutable_data_def
        CopyFrom_empty
      dest: check_shapes_dims
      split: option.splits sum.splits if_splits)

lemma before_loop_Inr:
  assumes "before_loop numToCollect inp ws = Inr (num_entries, num_new_entries, ws')"
  shows "ws' = ws\<lparr>RESERVOIR := (RESERVOIR ws)\<lparr>dims := dims (RESERVOIR ws'),
                                               meta := meta (RESERVOIR ws')\<rparr>\<rparr>"
    and "num_entries = tdim (DATA inp) 0" and "num_entries \<noteq> 0"
    and "countNewEntries inp ws = Inr num_new_entries"
    and "NUM_VISITED_dims ws = []" and "0 \<le> NUM_VISITED ws"
    and "check_object_id inp num_entries = None"
    and "check_shapes (DATA inp) (RESERVOIR ws) = None"
  using assms
  by (auto simp: before_loop_def Let_def Reserve_def Resize_def raw_mutable_data_def
        countNewEntries_def
      split: option.splits sum.splits if_splits)


lemma bind_object_owner_other:
  "p \<noteq> pos \<Longrightarrow>
   map_option (\<lambda>f. f p) (POS_TO_OBJECT (bind_object inp i pos ws))
     = map_option (\<lambda>f. f p) (POS_TO_OBJECT ws)"
  by (simp add: bind_object_def Let_def split: option.splits)

text \<open>One iteration leaves every row and owner entry outside the capacity alone.\<close>

lemma sample_row_frame:
  assumes run: "sample_row uniformDist numToCollect inp i ws = (res, ws')"
  shows "NUM_VISITED ws \<le> NUM_VISITED ws'"
    and "dims (RESERVOIR ws') = dims (RESERVOIR ws)"
    and "meta (RESERVOIR ws') = meta (RESERVOIR ws)"
    and "NUM_VISITED_dims ws' = NUM_VISITED_dims ws"
    and "\<not> (0 \<le> p \<and> p < numToCollect) \<Longrightarrow>
           raw_data (RESERVOIR ws') p = raw_data (RESERVOIR ws) p"
    and "\<not> (0 \<le> p \<and> p < numToCollect) \<Longrightarrow>
           map_option (\<lambda>f. f p) (POS_TO_OBJECT ws') = map_option (\<lambda>f. f p) (POS_TO_OBJECT ws)"
proof -
  have "NUM_VISITED ws \<le> NUM_VISITED ws'
      \<and> dims (RESERVOIR ws') = dims (RESERVOIR ws)
      \<and> meta (RESERVOIR ws') = meta (RESERVOIR ws)
      \<and> NUM_VISITED_dims ws' = NUM_VISITED_dims ws
      \<and> (\<not> (0 \<le> p \<and> p < numToCollect) \<longrightarrow>
           raw_data (RESERVOIR ws') p = raw_data (RESERVOIR ws) p
         \<and> map_option (\<lambda>f. f p) (POS_TO_OBJECT ws') = map_option (\<lambda>f. f p) (POS_TO_OBJECT ws))"
    using run
  proof (cases rule: sample_row_cases)
    case skip
    then show ?thesis by simp
  next
    case (fail pos g')
    then show ?thesis by simp
  next
    case (discard pos g')
    then show ?thesis by simp
  next
    case (store pos g')
    from choose_pos_below(1) [OF store(2)] store(3)
    have "0 \<le> pos \<and> pos < numToCollect" by auto
    then have "\<not> (0 \<le> p \<and> p < numToCollect) \<longrightarrow> p \<noteq> pos" by auto
    with store(5) show ?thesis
      by (auto simp: bind_object_fields copy_block_fields bind_object_owner_other)
  qed
  then show "NUM_VISITED ws \<le> NUM_VISITED ws'"
    and "dims (RESERVOIR ws') = dims (RESERVOIR ws)"
    and "meta (RESERVOIR ws') = meta (RESERVOIR ws)"
    and "NUM_VISITED_dims ws' = NUM_VISITED_dims ws"
    and "\<not> (0 \<le> p \<and> p < numToCollect) \<Longrightarrow>
           raw_data (RESERVOIR ws') p = raw_data (RESERVOIR ws) p"
    and "\<not> (0 \<le> p \<and> p < numToCollect) \<Longrightarrow>
           map_option (\<lambda>f. f p) (POS_TO_OBJECT ws') = map_option (\<lambda>f. f p) (POS_TO_OBJECT ws)"
    by simp_all
qed

lemma sample_rows_frame:
  fixes ws :: "('b, 'm, 'g) workspace"
  assumes ws'_def: "ws' = snd (sample_rows uniformDist numToCollect inp i num_entries ws)"
  shows "NUM_VISITED ws \<le> NUM_VISITED ws'"
    and "dims (RESERVOIR ws') = dims (RESERVOIR ws)"
    and "meta (RESERVOIR ws') = meta (RESERVOIR ws)"
    and "NUM_VISITED_dims ws' = NUM_VISITED_dims ws"
    and "\<not> (0 \<le> p \<and> p < numToCollect) \<Longrightarrow>
           raw_data (RESERVOIR ws') p = raw_data (RESERVOIR ws) p"
    and "\<not> (0 \<le> p \<and> p < numToCollect) \<Longrightarrow>
           map_option (\<lambda>f. f p) (POS_TO_OBJECT ws') = map_option (\<lambda>f. f p) (POS_TO_OBJECT ws)"
proof -
  let ?P = "\<lambda>w :: ('b, 'm, 'g) workspace. NUM_VISITED ws \<le> NUM_VISITED w
      \<and> dims (RESERVOIR w) = dims (RESERVOIR ws)
      \<and> meta (RESERVOIR w) = meta (RESERVOIR ws)
      \<and> NUM_VISITED_dims w = NUM_VISITED_dims ws
      \<and> (\<forall>p. \<not> (0 \<le> p \<and> p < numToCollect) \<longrightarrow>
           raw_data (RESERVOIR w) p = raw_data (RESERVOIR ws) p
         \<and> map_option (\<lambda>f. f p) (POS_TO_OBJECT w) = map_option (\<lambda>f. f p) (POS_TO_OBJECT ws))"
  have "?P ws'"
    unfolding ws'_def
  proof (rule sample_rows_invariant)
    show "?P ws" by simp
  next
    fix j w assume P: "?P w"
    obtain res w' where r: "sample_row uniformDist numToCollect inp j w = (res, w')"
      by (cases "sample_row uniformDist numToCollect inp j w")
    note f = sample_row_frame [OF r]
    from P f(1-4) f(5,6) show "?P (snd (sample_row uniformDist numToCollect inp j w))"
      unfolding r snd_conv by auto
  qed
  then show "NUM_VISITED ws \<le> NUM_VISITED ws'"
    and "dims (RESERVOIR ws') = dims (RESERVOIR ws)"
    and "meta (RESERVOIR ws') = meta (RESERVOIR ws)"
    and "NUM_VISITED_dims ws' = NUM_VISITED_dims ws"
    and "\<not> (0 \<le> p \<and> p < numToCollect) \<Longrightarrow>
           raw_data (RESERVOIR ws') p = raw_data (RESERVOIR ws) p"
    and "\<not> (0 \<le> p \<and> p < numToCollect) \<Longrightarrow>
           map_option (\<lambda>f. f p) (POS_TO_OBJECT ws') = map_option (\<lambda>f. f p) (POS_TO_OBJECT ws)"
    by simp_all
qed

lemma sanity_check_snd: "snd (sanity_check s k out) = snd out"
  by (cases out) (auto simp: sanity_check_def split: option.splits)

lemma sample_rows_all_in_pool:
  assumes "\<forall>j. i \<le> j \<and> j < num_entries \<longrightarrow> already_in_pool inp ws j"
  shows "sample_rows uniformDist numToCollect inp i num_entries ws = (None, ws)"
  using assms
proof (induction uniformDist numToCollect inp i num_entries ws rule: sample_rows.induct)
  case (1 uniformDist numToCollect inp i num_entries ws)
  show ?case
  proof (cases "i < num_entries")
    case False
    then show ?thesis by (simp add: sample_rows.simps)
  next
    case True
    with "1.prems" have "already_in_pool inp ws i" by simp
    then have r: "sample_row uniformDist numToCollect inp i ws = (None, ws)"
      by (simp add: sample_row_def)
    from "1.prems" have "\<forall>j. i + 1 \<le> j \<and> j < num_entries \<longrightarrow> already_in_pool inp ws j"
      by simp
    from "1.IH" [OF True r [symmetric] refl this] True r show ?thesis
      by (simp add: sample_rows.simps [of uniformDist numToCollect inp i])
  qed
qed

lemma sample_row_failure:
  "sample_row uniformDist numToCollect inp i ws = (Some e, ws') \<Longrightarrow> e = DiscardBelowCapacity"
  by (erule sample_row_cases) simp_all

lemma sample_rows_failure:
  "sample_rows uniformDist numToCollect inp i num_entries ws = (Some e, ws')
     \<Longrightarrow> e = DiscardBelowCapacity"
proof (induction uniformDist numToCollect inp i num_entries ws rule: sample_rows.induct)
  case (1 uniformDist numToCollect inp i num_entries ws)
  show ?case
  proof (cases "i < num_entries")
    case False
    with "1.prems" show ?thesis by (simp add: sample_rows.simps)
  next
    case True
    obtain res w where r: "sample_row uniformDist numToCollect inp i ws = (res, w)"
      by (cases "sample_row uniformDist numToCollect inp i ws")
    show ?thesis
    proof (cases res)
      case None
      from "1.prems" True r None
      have "sample_rows uniformDist numToCollect inp (i + 1) num_entries w = (Some e, ws')"
        by (simp add: sample_rows.simps [of uniformDist numToCollect inp i])
      from "1.IH" [OF True r [symmetric] None this] show ?thesis .
    next
      case (Some e')
      with "1.prems" True r have "e' = e"
        by (simp add: sample_rows.simps [of uniformDist numToCollect inp i])
      with r Some sample_row_failure show ?thesis by blast
    qed
  qed
qed

lemma check_shapes_failure:
  "check_shapes input output = Some e \<Longrightarrow> e = InputNdim \<or> e = ReservoirNdim \<or> e = ReservoirDim"
  by (auto simp: check_shapes_def split: if_splits)

lemma countNewEntries_failure:
  "countNewEntries inp ws = Inl e \<Longrightarrow> e = ObjectIdNdim \<or> e = MissingOperand"
  by (auto simp: countNewEntries_def split: option.splits if_splits)

subsection \<open>Streams of rows with distinct keys\<close>

text \<open>A row that is not in the pool, with both indexes present.\<close>

lemma sample_row_new:
  assumes new: "\<not> already_in_pool inp ws i" and nonneg: "0 \<le> NUM_VISITED ws"
    and ids: "OBJECT_ID inp = Some object_id"
    and index: "OBJECT_TO_POS_MAP ws = Some object_to_pos_map"
    and owners: "POS_TO_OBJECT ws = Some pos_to_object"
  obtains
    (discard) g' where "numToCollect \<le> NUM_VISITED ws"
      "sample_row uniformDist numToCollect inp i ws
         = (None, ws\<lparr>RandGenerator := g', NUM_VISITED := NUM_VISITED ws + 1\<rparr>)"
  | (store) pos g' where "0 \<le> pos" "pos < numToCollect"
      "NUM_VISITED ws < numToCollect \<longrightarrow> pos = NUM_VISITED ws"
      "sample_row uniformDist numToCollect inp i ws
         = (None, ws\<lparr>RESERVOIR := (RESERVOIR ws)\<lparr>raw_data :=
                         (raw_data (RESERVOIR ws))(pos := raw_data (DATA inp) i)\<rparr>,
                     POS_TO_OBJECT := Some (pos_to_object(pos := raw_data object_id i)),
                     OBJECT_TO_POS_MAP := Some (emplace (erase object_to_pos_map (pos_to_object pos))
                                                  (raw_data object_id i) pos),
                     RandGenerator := g', NUM_VISITED := NUM_VISITED ws + 1\<rparr>)"
proof -
  obtain res ws' where r: "sample_row uniformDist numToCollect inp i ws = (res, ws')"
    by (cases "sample_row uniformDist numToCollect inp i ws")
  from r show ?thesis
  proof (cases rule: sample_row_cases)
    case skip
    with new show ?thesis by simp
  next
    case (fail pos g')
    from choose_pos_below(2) [OF fail(2)] fail(3,4) nonneg show ?thesis by simp
  next
    case (discard pos g')
    from discard(4,5,6) r show ?thesis by (intro that(1)) simp_all
  next
    case (store pos g')
    from choose_pos_below(1) [OF store(2)] store(3) have lt: "pos < numToCollect" by auto
    from choose_pos_below(2) [OF store(2)]
    have ap: "NUM_VISITED ws < numToCollect \<longrightarrow> pos = NUM_VISITED ws" by simp
    have "ws' = ws\<lparr>RESERVOIR := (RESERVOIR ws)\<lparr>raw_data :=
                         (raw_data (RESERVOIR ws))(pos := raw_data (DATA inp) i)\<rparr>,
                     POS_TO_OBJECT := Some (pos_to_object(pos := raw_data object_id i)),
                     OBJECT_TO_POS_MAP := Some (emplace (erase object_to_pos_map (pos_to_object pos))
                                                  (raw_data object_id i) pos),
                     RandGenerator := g', NUM_VISITED := NUM_VISITED ws + 1\<rparr>"
      unfolding store(5) using ids index owners
      by (simp add: bind_object_def copy_block_def Let_def)
    with r store(4) store(3) lt ap show ?thesis by (intro that(2)) simp_all
  qed
qed

lemma dom_emplace_erase:
  "dom (emplace (erase m old) k v) \<subseteq> insert k (dom m)"
  by (auto simp: emplace_def erase_def split: if_splits)

lemma sample_row_sampled:
  fixes ws :: "('b, 'm, 'g) workspace"
  assumes inv: "sampled numToCollect kxs t ws" and t: "t < length kxs"
    and dist: "distinct (map fst kxs)"
    and ids: "OBJECT_ID inp = Some object_id"
    and key: "raw_data object_id i = fst (kxs ! t)"
    and blk: "raw_data (DATA inp) i = snd (kxs ! t)"
  shows "\<exists>ws'. sample_row uniformDist numToCollect inp i ws = (None, ws')
           \<and> sampled numToCollect kxs (Suc t) ws'
           \<and> dims (RESERVOIR ws') = dims (RESERVOIR ws)
           \<and> meta (RESERVOIR ws') = meta (RESERVOIR ws)"
proof -
  from inv obtain m f where
    v: "NUM_VISITED ws = int t" and sc: "NUM_VISITED_dims ws = []"
    and m: "OBJECT_TO_POS_MAP ws = Some m" and f: "POS_TO_OBJECT ws = Some f"
    and dom: "dom m \<subseteq> fst ` set (take t kxs)"
    and slots: "\<forall>pos. 0 \<le> pos \<and> pos < min numToCollect (int t) \<longrightarrow>
           (f pos, raw_data (RESERVOIR ws) pos) \<in> set (take t kxs)"
    and inj: "inj_on f {0..<min numToCollect (int t)}"
    and ord: "int t \<le> numToCollect \<longrightarrow>
           (\<forall>j<t. (f (int j), raw_data (RESERVOIR ws) (int j)) = kxs ! j)"
    unfolding sampled_def by blast
  have take_Suc: "take (Suc t) kxs = take t kxs @ [kxs ! t]"
    using t by (simp add: take_Suc_conv_app_nth)
  have fresh: "fst (kxs ! t) \<notin> fst ` set (take t kxs)"
  proof
    assume "fst (kxs ! t) \<in> fst ` set (take t kxs)"
    then obtain j where j: "j < t" "fst (kxs ! j) = fst (kxs ! t)"
      using t by (auto simp: in_set_conv_nth)
    with t dist have "j = t"
      by (metis (no_types, lifting) distinct_conv_nth length_map less_trans nth_map)
    with j show False by simp
  qed
  with dom key m ids have new: "\<not> already_in_pool inp ws i"
    by (auto simp: already_in_pool_def)
  have nonneg: "0 \<le> NUM_VISITED ws" using v by simp
  from new nonneg ids m f show ?thesis
  proof (cases rule: sample_row_new [where uniformDist = uniformDist and numToCollect = numToCollect])
    case (discard g')
    let ?ws' = "ws\<lparr>RandGenerator := g', NUM_VISITED := NUM_VISITED ws + 1\<rparr>"
    from discard(1) v have full: "numToCollect \<le> int t" by simp
    then have mn: "min numToCollect (int (Suc t)) = min numToCollect (int t)" by simp
    have "sampled numToCollect kxs (Suc t) ?ws'"
      unfolding sampled_def mn
      using v sc m f dom slots inj full
      by (auto simp: take_Suc)
    with discard(2) show ?thesis by simp
  next
    case (store pos g')
    let ?k = "fst (kxs ! t)" and ?x = "snd (kxs ! t)"
    let ?f' = "f(pos := ?k)"
    let ?raw' = "(raw_data (RESERVOIR ws))(pos := ?x)"
    let ?m' = "emplace (erase m (f pos)) ?k pos"
    let ?ws' = "ws\<lparr>RESERVOIR := (RESERVOIR ws)\<lparr>raw_data := ?raw'\<rparr>,
                     POS_TO_OBJECT := Some ?f', OBJECT_TO_POS_MAP := Some ?m',
                     RandGenerator := g', NUM_VISITED := NUM_VISITED ws + 1\<rparr>"
    have pos_in: "pos < min numToCollect (int (Suc t))"
      using store(1,2,3) v by auto
    have others: "pos' < min numToCollect (int t)"
      if "0 \<le> pos'" "pos' < min numToCollect (int (Suc t))" "pos' \<noteq> pos" for pos'
      using that store(1,2,3) v by auto
    have dom': "dom ?m' \<subseteq> fst ` set (take (Suc t) kxs)"
      using dom_emplace_erase [of m "f pos" ?k pos] dom by (auto simp: take_Suc)
    have slots': "(?f' pos', ?raw' pos') \<in> set (take (Suc t) kxs)"
      if "0 \<le> pos'" "pos' < min numToCollect (int (Suc t))" for pos'
    proof (cases "pos' = pos")
      case True
      then show ?thesis by (simp add: take_Suc)
    next
      case False
      from others [OF that False] that(1) slots
      have "(f pos', raw_data (RESERVOIR ws) pos') \<in> set (take t kxs)" by simp
      with False show ?thesis by (simp add: take_Suc)
    qed
    have inj': "inj_on ?f' {0..<min numToCollect (int (Suc t))}"
    proof (rule inj_onI)
      fix a b
      assume a: "a \<in> {0..<min numToCollect (int (Suc t))}"
        and b: "b \<in> {0..<min numToCollect (int (Suc t))}"
        and eq: "?f' a = ?f' b"
      have old: "f c \<noteq> ?k" if "c \<in> {0..<min numToCollect (int (Suc t))}" "c \<noteq> pos" for c
      proof -
        from that others [of c] have "0 \<le> c \<and> c < min numToCollect (int t)" by simp
        with slots have "(f c, raw_data (RESERVOIR ws) c) \<in> set (take t kxs)" by blast
        then have "f c \<in> fst ` set (take t kxs)" by force
        with fresh show ?thesis by metis
      qed
      show "a = b"
      proof (cases "a = pos")
        case True
        with eq old [OF b] show ?thesis by (cases "b = pos") auto
      next
        case False
        show ?thesis
        proof (cases "b = pos")
          case True
          with eq old [OF a False] False show ?thesis by auto
        next
          case bf: False
          from False bf eq have "f a = f b" by simp
          moreover from a others [of a] False have "a \<in> {0..<min numToCollect (int t)}" by simp
          moreover from b others [of b] bf have "b \<in> {0..<min numToCollect (int t)}" by simp
          ultimately show ?thesis using inj by (auto dest: inj_onD)
        qed
      qed
    qed
    have ord': "(?f' (int j), ?raw' (int j)) = kxs ! j"
      if le: "int (Suc t) \<le> numToCollect" and j: "j < Suc t" for j
    proof -
      from le v store(3) have p: "pos = int t" by simp
      show ?thesis
      proof (cases "j = t")
        case True
        with p show ?thesis by simp
      next
        case False
        with j have "j < t" by simp
        moreover from le have "int t \<le> numToCollect" by simp
        ultimately have "(f (int j), raw_data (RESERVOIR ws) (int j)) = kxs ! j"
          using ord by blast
        with False p show ?thesis by simp
      qed
    qed
    have "sampled numToCollect kxs (Suc t) ?ws'"
      unfolding sampled_def
      using v sc dom' slots' inj' ord' by simp
    with store(4) key blk show ?thesis by simp
  qed
qed

lemma sampled_reshape:
  "sampled numToCollect kxs t (ws\<lparr>RESERVOIR := (RESERVOIR ws)\<lparr>dims := ds, meta := mt\<rparr>\<rparr>)
     = sampled numToCollect kxs t ws"
  by (simp add: sampled_def)

lemma sample_rows_sampled:
  fixes ws :: "('b, 'm, 'g) workspace"
  assumes "sampled numToCollect kxs t ws"
    and "distinct (map fst kxs)"
    and "OBJECT_ID inp = Some object_id"
    and "\<forall>j. i \<le> j \<and> j < num_entries \<longrightarrow>
           (raw_data object_id j, raw_data (DATA inp) j) = kxs ! (t + nat (j - i))"
    and "t + nat (num_entries - i) \<le> length kxs"
  shows "\<exists>ws'. sample_rows uniformDist numToCollect inp i num_entries ws = (None, ws')
           \<and> sampled numToCollect kxs (t + nat (num_entries - i)) ws'
           \<and> dims (RESERVOIR ws') = dims (RESERVOIR ws)
           \<and> meta (RESERVOIR ws') = meta (RESERVOIR ws)"
  using assms
proof (induction uniformDist numToCollect inp i num_entries ws arbitrary: t
    rule: sample_rows.induct)
  case (1 uniformDist numToCollect inp i num_entries ws)
  show ?case
  proof (cases "i < num_entries")
    case False
    with "1.prems"(1) show ?thesis by (simp add: sample_rows.simps)
  next
    case True
    from True "1.prems"(5) have t: "t < length kxs" by simp
    from True "1.prems"(4) have row: "(raw_data object_id i, raw_data (DATA inp) i) = kxs ! t"
      by force
    then have key: "raw_data object_id i = fst (kxs ! t)"
      and blk: "raw_data (DATA inp) i = snd (kxs ! t)"
      by (simp_all add: prod_eq_iff)
    from sample_row_sampled [OF "1.prems"(1) t "1.prems"(2,3) key blk, of uniformDist]
    obtain ws1 where r: "sample_row uniformDist numToCollect inp i ws = (None, ws1)"
      and inv1: "sampled numToCollect kxs (Suc t) ws1"
      and shape1: "dims (RESERVOIR ws1) = dims (RESERVOIR ws)"
        "meta (RESERVOIR ws1) = meta (RESERVOIR ws)"
      by blast
    have rows1: "\<forall>j. i + 1 \<le> j \<and> j < num_entries \<longrightarrow>
           (raw_data object_id j, raw_data (DATA inp) j) = kxs ! (Suc t + nat (j - (i + 1)))"
    proof (intro allI impI)
      fix j assume j: "i + 1 \<le> j \<and> j < num_entries"
      then have e: "Suc t + nat (j - (i + 1)) = t + nat (j - i)" by linarith
      from j have "i \<le> j \<and> j < num_entries" by simp
      with "1.prems"(4) have "(raw_data object_id j, raw_data (DATA inp) j)
          = kxs ! (t + nat (j - i))" by blast
      then show "(raw_data object_id j, raw_data (DATA inp) j)
          = kxs ! (Suc t + nat (j - (i + 1)))" by (simp only: e)
    qed
    from True have cnt: "Suc t + nat (num_entries - (i + 1)) = t + nat (num_entries - i)"
      by linarith
    with "1.prems"(5) have len1: "Suc t + nat (num_entries - (i + 1)) \<le> length kxs" by simp
    from "1.IH" [OF True r [symmetric] refl inv1 "1.prems"(2,3) rows1 len1]
    obtain ws' where "sample_rows uniformDist numToCollect inp (i + 1) num_entries ws1 = (None, ws')"
      "sampled numToCollect kxs (Suc t + nat (num_entries - (i + 1))) ws'"
      "dims (RESERVOIR ws') = dims (RESERVOIR ws1)" "meta (RESERVOIR ws') = meta (RESERVOIR ws1)"
      by blast
    then show ?thesis
      unfolding cnt shape1 using True r
      by (simp add: sample_rows.simps [of uniformDist numToCollect inp i])
  qed
qed

lemma rows_tensor_simps:
  "dims (rows_tensor m shape d xs) = int (length xs) # shape"
  "meta (rows_tensor m shape d xs) = m"
  "tdim (rows_tensor m shape d xs) 0 = int (length xs)"
  "ndim (rows_tensor m shape d xs) = 1 + int (length shape)"
  "tsize (rows_tensor m shape d xs) = int (length xs) * prod_list shape"
  "0 \<le> i \<Longrightarrow> i < int (length xs) \<Longrightarrow> raw_data (rows_tensor m shape d xs) i = xs ! nat i"
  by (simp_all add: rows_tensor_def tdim_def ndim_def tsize_def)

lemma object_ids_rows_tensor: "object_ids (rows_tensor m [] d xs) = xs"
  by (auto simp: object_ids_def rows_tensor_def tsize_def intro: nth_equalityI)

lemma keyed_batch_simps:
  "DATA (keyed_batch m shape d kxs) = rows_tensor m shape d (map snd kxs)"
  "OBJECT_ID (keyed_batch m shape d kxs) = Some (rows_tensor m [] 0 (map fst kxs))"
  by (simp_all add: keyed_batch_def)

lemma check_shapes_rows:
  assumes "0 < tsize output \<longrightarrow> (\<exists>x. dims output = x # shape)"
  shows "check_shapes (rows_tensor m shape d xs) output = None"
proof (cases "0 < tsize output")
  case False
  then show ?thesis by (simp add: check_shapes_def rows_tensor_simps)
next
  case True
  with assms obtain x where x: "dims output = x # shape" by blast
  have "\<not> list_ex (\<lambda>i. tdim output i \<noteq> tdim (rows_tensor m shape d xs) i)
          [1..<length (dims (rows_tensor m shape d xs))]"
    by (auto simp: list_ex_iff tdim_def x rows_tensor_def nth_Cons split: nat.splits)
  with True x show ?thesis
    by (simp add: check_shapes_def rows_tensor_simps ndim_def)
qed

lemma distinct_keys_apart:
  assumes "distinct (map fst kxs)" "j < t" "t \<le> j'" "j' < length kxs"
  shows "fst (kxs ! j) \<noteq> fst (kxs ! j')"
proof -
  from assms have b: "j < length (map fst kxs)" "j' < length (map fst kxs)" "j \<noteq> j'"
    by simp_all
  from assms(1) b have "map fst kxs ! j \<noteq> map fst kxs ! j'"
    unfolding distinct_conv_nth by blast
  with assms show ?thesis by simp
qed

lemma countNewEntries_all_new:
  assumes "OBJECT_ID inp = Some object_id" "ndim object_id = 1"
    and "OBJECT_TO_POS_MAP ws = Some object_to_pos_map"
    and "\<forall>oid \<in> set (object_ids object_id). object_to_pos_map oid = None"
  shows "countNewEntries inp ws = Inr (int (length (object_ids object_id)))"
proof -
  from assms(4) have "filter (\<lambda>oid. object_to_pos_map oid = None) (object_ids object_id)
      = object_ids object_id"
    by (simp add: filter_id_conv)
  with assms(1-3) show ?thesis by (simp add: countNewEntries_def)
qed

lemma keyed_batch_rows:
  assumes nxt: "take (length kxs_b) (drop t kxs) = kxs_b" and len: "t + length kxs_b \<le> length kxs"
  shows "\<forall>j. 0 \<le> j \<and> j < int (length kxs_b) \<longrightarrow>
           (raw_data (rows_tensor m [] 0 (map fst kxs_b)) j,
            raw_data (DATA (keyed_batch m shape dflt kxs_b)) j)
             = kxs ! (t + nat (j - 0))"
proof (intro allI impI)
  fix j :: int assume j: "0 \<le> j \<and> j < int (length kxs_b)"
  then have nj: "nat j < length kxs_b" by linarith
  from nxt have "kxs_b ! nat j = take (length kxs_b) (drop t kxs) ! nat j" by simp
  also from nj len have "\<dots> = kxs ! (t + nat j)" by simp
  finally have "kxs_b ! nat j = kxs ! (t + nat j)" .
  with j nj show "(raw_data (rows_tensor m [] 0 (map fst kxs_b)) j,
          raw_data (DATA (keyed_batch m shape dflt kxs_b)) j) = kxs ! (t + nat (j - 0))"
    by (simp add: keyed_batch_simps rows_tensor_simps prod_eq_iff)
qed

lemma before_loop_between_calls:
  fixes ws :: "('b, 'm, 'g) workspace"
  assumes inv: "between_calls numToCollect shape kxs t ws"
    and cap: "0 < numToCollect"
    and dist: "distinct (map fst kxs)"
    and nxt: "take (length kxs_b) (drop t kxs) = kxs_b"
  shows "(kxs_b = [] \<longrightarrow>
           (\<exists>ws'. before_loop numToCollect (keyed_batch m shape dflt kxs_b) ws = Inl (None, ws')
                \<and> between_calls numToCollect shape kxs t ws'))
       \<and> (kxs_b \<noteq> [] \<longrightarrow>
           (\<exists>ws3. before_loop numToCollect (keyed_batch m shape dflt kxs_b) ws
                    = Inr (int (length kxs_b), int (length kxs_b), ws3)
                \<and> sampled numToCollect kxs t ws3
                \<and> t + length kxs_b \<le> length kxs
                \<and> (\<forall>ws4 :: ('b, 'm, 'g) workspace. sampled numToCollect kxs (t + length kxs_b) ws4
                         \<and> dims (RESERVOIR ws4) = dims (RESERVOIR ws3)
                       \<longrightarrow> between_calls numToCollect shape kxs (t + length kxs_b) ws4)))"
proof -
  let ?inp = "keyed_batch m shape dflt kxs_b"
  let ?n = "length kxs_b"
  let ?R = "RESERVOIR ws"
  from inv have smp: "sampled numToCollect kxs t ws"
    and shp: "if 0 < prod_list shape \<and> 0 < t
      then dims ?R = min numToCollect (int t) # shape else \<not> 0 < tsize ?R"
    by (simp_all add: between_calls_def)
  from smp obtain mp f where
    v: "NUM_VISITED ws = int t" and sc: "NUM_VISITED_dims ws = []"
    and mp: "OBJECT_TO_POS_MAP ws = Some mp" and f: "POS_TO_OBJECT ws = Some f"
    and dom: "dom mp \<subseteq> fst ` set (take t kxs)"
    unfolding sampled_def by blast
  have init: "0 < tsize ?R \<longleftrightarrow> 0 < prod_list shape \<and> 0 < t"
  proof (cases "0 < prod_list shape \<and> 0 < t")
    case True
    with shp have "dims ?R = min numToCollect (int t) # shape" by simp
    with True cap show ?thesis by (simp add: tsize_def)
  next
    case False
    with shp show ?thesis by auto
  qed
  have shapes: "check_shapes (DATA ?inp) ?R = None"
    unfolding keyed_batch_simps
  proof (rule check_shapes_rows, intro impI)
    assume "0 < tsize ?R"
    with init shp show "\<exists>x. dims ?R = x # shape" by auto
  qed
  have n: "tdim (DATA ?inp) 0 = int ?n"
    by (simp add: keyed_batch_simps rows_tensor_simps)
  show ?thesis
  proof (cases "kxs_b = []")
    case True
    have "\<exists>ds mt. before_loop numToCollect ?inp ws
            = Inl (None, ws\<lparr>RESERVOIR := ?R\<lparr>dims := ds, meta := mt\<rparr>\<rparr>)
          \<and> (if 0 < tsize ?R then ds = dims ?R else ds = 0 # shape)"
    proof (cases "0 < tsize ?R")
      case t: True
      have "before_loop numToCollect ?inp ws = Inl (None, ws)"
        using t True shapes n by (simp add: before_loop_def Let_def Reserve_def)
      then have "before_loop numToCollect ?inp ws
            = Inl (None, ws\<lparr>RESERVOIR := ?R\<lparr>dims := dims ?R, meta := meta ?R\<rparr>\<rparr>)" by simp
      with t show ?thesis by (intro exI [of _ "dims ?R"] exI [of _ "meta ?R"]) simp
    next
      case nt: False
      have "tdim (DATA ?inp) 0 = 0" using n True by simp
      from CopyFrom_empty [OF check_shapes_dims [OF shapes] this] nt True shapes n show ?thesis
        by (auto simp: before_loop_def Let_def Reserve_def keyed_batch_simps rows_tensor_simps)
    qed
    then obtain ds mt where run: "before_loop numToCollect ?inp ws
            = Inl (None, ws\<lparr>RESERVOIR := ?R\<lparr>dims := ds, meta := mt\<rparr>\<rparr>)"
      and ds: "if 0 < tsize ?R then ds = dims ?R else ds = 0 # shape"
      by blast
    have "between_calls numToCollect shape kxs t (ws\<lparr>RESERVOIR := ?R\<lparr>dims := ds, meta := mt\<rparr>\<rparr>)"
      unfolding between_calls_def sampled_reshape
      using smp shp ds init by (auto simp: tsize_def)
    with run True show ?thesis by simp
  next
    case False
    then have npos: "0 < ?n" by simp
    have "length (take ?n (drop t kxs)) = ?n" by (simp only: nxt)
    then have "min ?n (length kxs - t) = ?n" by simp
    with npos have len: "t + ?n \<le> length kxs" by linarith
    have rows: "kxs_b ! j = kxs ! (t + j)" if "j < ?n" for j
    proof -
      from nxt have "kxs_b ! j = take ?n (drop t kxs) ! j" by simp
      also from that len have "\<dots> = kxs ! (t + j)" by simp
      finally show ?thesis .
    qed
    have fresh: "\<forall>oid \<in> set (object_ids (rows_tensor m [] (0::int) (map fst kxs_b))). mp oid = None"
    proof
      fix oid assume "oid \<in> set (object_ids (rows_tensor m [] (0::int) (map fst kxs_b)))"
      then obtain j where j: "j < ?n" "oid = fst (kxs_b ! j)"
        by (auto simp: object_ids_rows_tensor in_set_conv_nth)
      show "mp oid = None"
      proof (rule ccontr)
        assume "mp oid \<noteq> None"
        with dom have "oid \<in> fst ` set (take t kxs)" by auto
        then obtain j' where j': "j' < t" "j' < length kxs" "oid = fst (kxs ! j')"
          by (auto simp: in_set_conv_nth)
        from distinct_keys_apart [OF dist j'(1), of "t + j"] j len
        have "fst (kxs ! j') \<noteq> fst (kxs ! (t + j))" by simp
        with j j' rows show False by simp
      qed
    qed
    have cnt: "countNewEntries ?inp w = Inr (int ?n)"
      if "OBJECT_TO_POS_MAP w = Some mp" for w :: "('b, 'm, 'g) workspace"
      using countNewEntries_all_new [OF keyed_batch_simps(2) _ that fresh]
      by (simp add: rows_tensor_simps object_ids_rows_tensor)
    have chk: "check_object_id ?inp (int ?n) = None"
      by (simp add: check_object_id_def keyed_batch_simps rows_tensor_simps)
    let ?obs = "if 0 < tsize ?R then tdim ?R 0 else 0"
    let ?ds = "if ?obs < numToCollect
               then ((dims (DATA ?inp))[0 := numToCollect])[0 :=
                       min numToCollect (?obs + min (int ?n) numToCollect)]
               else dims ?R"
    let ?ws3 = "ws\<lparr>RESERVOIR := ?R\<lparr>dims := ?ds, meta := m\<rparr>\<rparr>"
    have bl: "before_loop numToCollect ?inp ws = Inr (int ?n, int ?n, ?ws3)"
      using shapes n npos sc v f chk
      by (simp add: before_loop_def Let_def Reserve_def Resize_def raw_mutable_data_def
            cnt mp keyed_batch_simps(1) rows_tensor_simps(2))
    have smp3: "sampled numToCollect kxs t ?ws3"
      unfolding sampled_reshape by (rule smp)
    have dsx: "?ds = min numToCollect (int t + int ?n) # shape" if "0 < prod_list shape"
    proof (cases "0 < t")
      case True
      with that shp init have d: "dims ?R = min numToCollect (int t) # shape" "0 < tsize ?R"
        by simp_all
      then show ?thesis
        by (auto simp: tdim_def keyed_batch_simps rows_tensor_simps min_def)
    next
      case False
      with init have "\<not> 0 < tsize ?R" by simp
      with False cap show ?thesis
        by (auto simp: keyed_batch_simps rows_tensor_simps min_def)
    qed
    have dsz: "\<not> 0 < prod_list ?ds" if "\<not> 0 < prod_list shape"
    proof -
      from that init have ni: "\<not> 0 < tsize ?R" by simp
      with cap have "?ds = min numToCollect (min (int ?n) numToCollect) # shape"
        by (simp add: keyed_batch_simps rows_tensor_simps)
      moreover have "0 \<le> min numToCollect (min (int ?n) numToCollect)" using cap by simp
      ultimately show ?thesis using that
        by (simp add: mult_le_0_iff not_less)
    qed
    have fin: "between_calls numToCollect shape kxs (t + ?n) ws4"
      if "sampled numToCollect kxs (t + ?n) ws4" "dims (RESERVOIR ws4) = dims (RESERVOIR ?ws3)"
      for ws4 :: "('b, 'm, 'g) workspace"
    proof -
      from that(2) have "dims (RESERVOIR ws4) = ?ds" by simp
      with that(1) dsx dsz npos show ?thesis
        unfolding between_calls_def by (auto simp: tsize_def)
    qed
    have "\<exists>ws3. before_loop numToCollect ?inp ws = Inr (int ?n, int ?n, ws3)
                \<and> sampled numToCollect kxs t ws3
                \<and> t + ?n \<le> length kxs
                \<and> (\<forall>ws4 :: ('b, 'm, 'g) workspace. sampled numToCollect kxs (t + ?n) ws4
                         \<and> dims (RESERVOIR ws4) = dims (RESERVOIR ws3)
                       \<longrightarrow> between_calls numToCollect shape kxs (t + ?n) ws4)"
    proof (rule exI [of _ ?ws3], intro conjI allI impI)
      show "before_loop numToCollect ?inp ws = Inr (int ?n, int ?n, ?ws3)" by (rule bl)
      show "sampled numToCollect kxs t ?ws3" by (rule smp3)
      show "t + ?n \<le> length kxs" by (rule len)
      fix ws4 :: "('b, 'm, 'g) workspace"
      assume "sampled numToCollect kxs (t + ?n) ws4
          \<and> dims (RESERVOIR ws4) = dims (RESERVOIR ?ws3)"
      then show "between_calls numToCollect shape kxs (t + ?n) ws4"
        using fin by blast
    qed
    with False show ?thesis by simp
  qed
qed

lemma RunOnDevice_between_calls:
  fixes ws :: "('b, 'm, 'g) workspace"
  assumes inv: "between_calls numToCollect shape kxs t ws"
    and cap: "0 < numToCollect"
    and dist: "distinct (map fst kxs)"
    and nxt: "take (length kxs_b) (drop t kxs) = kxs_b"
  shows "\<exists>ws'. RunOnDevice uniformDist numToCollect (keyed_batch m shape dflt kxs_b) ws = (None, ws')
           \<and> between_calls numToCollect shape kxs (t + length kxs_b) ws'"
proof (cases "kxs_b = []")
  case True
  with before_loop_between_calls [OF inv cap dist nxt, of m dflt] show ?thesis
    by (auto simp: RunOnDevice_def)
next
  case False
  let ?inp = "keyed_batch m shape dflt kxs_b"
  let ?n = "length kxs_b"
  from False before_loop_between_calls [OF inv cap dist nxt, of m dflt]
  obtain ws3 where bl: "before_loop numToCollect ?inp ws = Inr (int ?n, int ?n, ws3)"
    and smp3: "sampled numToCollect kxs t ws3"
    and len: "t + ?n \<le> length kxs"
    and fin: "\<And>ws4 :: ('b, 'm, 'g) workspace. sampled numToCollect kxs (t + ?n) ws4 \<Longrightarrow>
                dims (RESERVOIR ws4) = dims (RESERVOIR ws3) \<Longrightarrow>
                between_calls numToCollect shape kxs (t + ?n) ws4"
    by blast
  from len have len': "t + nat (int ?n - 0) \<le> length kxs" by simp
  from sample_rows_sampled [OF smp3 dist keyed_batch_simps(2) [of m shape dflt kxs_b]
      keyed_batch_rows [OF nxt len, of m shape dflt] len', of uniformDist]
  obtain ws4 where loop: "sample_rows uniformDist numToCollect ?inp 0 (int ?n) ws3 = (None, ws4)"
    and smp4: "sampled numToCollect kxs (t + ?n) ws4"
    and ds4: "dims (RESERVOIR ws4) = dims (RESERVOIR ws3)"
    by auto
  from smp4 have "NUM_VISITED ws4 = int t + int ?n" by (simp add: sampled_def)
  moreover from smp3 have "NUM_VISITED ws3 = int t" by (simp add: sampled_def)
  ultimately have "RunOnDevice uniformDist numToCollect ?inp ws = (None, ws4)"
    using bl loop by (simp add: RunOnDevice_def sanity_check_def)
  with fin [OF smp4 ds4] show ?thesis by blast
qed

lemma feed_between_calls:
  fixes ws :: "('b, 'm, 'g) workspace"
  assumes "between_calls numToCollect shape kxs t ws"
    and "0 < numToCollect"
    and "distinct (map fst kxs)"
    and "drop t kxs = concat kxss" and "t \<le> length kxs"
  shows "\<exists>ws'. feed uniformDist numToCollect (map (keyed_batch m shape dflt) kxss) ws = (None, ws')
           \<and> between_calls numToCollect shape kxs (length kxs) ws'"
  using assms
proof (induction kxss arbitrary: t ws)
  case Nil
  then have "t = length kxs" by simp
  with Nil show ?case by simp
next
  case (Cons kxs_b kxss)
  from Cons.prems(4) have nxt: "take (length kxs_b) (drop t kxs) = kxs_b" by simp
  from RunOnDevice_between_calls [OF Cons.prems(1,2,3) nxt, of uniformDist m dflt]
  obtain ws1 where run: "RunOnDevice uniformDist numToCollect (keyed_batch m shape dflt kxs_b) ws
        = (None, ws1)"
    and inv1: "between_calls numToCollect shape kxs (t + length kxs_b) ws1"
    by blast
  from Cons.prems(4) have rest: "drop (t + length kxs_b) kxs = concat kxss"
    by (metis add.commute append_eq_conv_conj concat.simps(2) drop_drop)
  have "length (drop t kxs) = length kxs_b + length (concat kxss)"
    by (simp only: Cons.prems(4) concat.simps length_append)
  with Cons.prems(5) have le: "t + length kxs_b \<le> length kxs" by simp
  from Cons.IH [OF inv1 Cons.prems(2,3) rest le]
  obtain ws' where "feed uniformDist numToCollect (map (keyed_batch m shape dflt) kxss) ws1
        = (None, ws')"
    "between_calls numToCollect shape kxs (length kxs) ws'"
    by blast
  with run show ?case by simp
qed

lemma between_calls_empty:
  assumes "\<not> 0 < tsize (RESERVOIR ws)" "NUM_VISITED_dims ws = []" "NUM_VISITED ws = 0"
    "OBJECT_TO_POS_MAP ws = Some Map.empty" "POS_TO_OBJECT ws = Some owners"
  shows "between_calls numToCollect shape kxs 0 ws"
  using assms by (simp add: between_calls_def sampled_def)

subsection \<open>Expected values over the draws\<close>

lemma sum_list_upto_cases:
  fixes a b :: rat
  shows "(\<Sum>r\<leftarrow>[0..t]. if P r then a else b)
       = of_nat (card {r \<in> {0..t}. P r}) * a + of_nat (card {r \<in> {0..t}. \<not> P r}) * b"
proof -
  have "(\<Sum>r\<leftarrow>[0..t]. if P r then a else b) = (\<Sum>r\<in>{0..t}. if P r then a else b)"
    by (simp add: sum_list_distinct_conv_sum_set)
  also have "\<dots> = sum (\<lambda>r. a) ({0..t} \<inter> {r. P r}) + sum (\<lambda>r. b) ({0..t} \<inter> - {r. P r})"
    by (rule sum.If_cases) simp
  also have "{0..t} \<inter> {r. P r} = {r \<in> {0..t}. P r}" by auto
  also have "{0..t} \<inter> - {r. P r} = {r \<in> {0..t}. \<not> P r}" by auto
  finally show ?thesis by simp
qed

lemma card_upto_except:
  assumes "0 \<le> s" "s \<le> t"
  shows "card {r \<in> {0..t}. r \<noteq> s} = nat t" and "card {r \<in> {0..t}. \<not> r \<noteq> s} = 1"
proof -
  have "{r \<in> {0..t}. r \<noteq> s} = {0..t} - {s}" by auto
  with assms show "card {r \<in> {0..t}. r \<noteq> s} = nat t" by simp
  have "{r \<in> {0..t}. \<not> r \<noteq> s} = {s}" using assms by auto
  then show "card {r \<in> {0..t}. \<not> r \<noteq> s} = 1" by simp
qed

lemma card_upto_below:
  assumes "0 \<le> c" "c \<le> t + 1"
  shows "card {r \<in> {0..t}. r < c} = nat c"
proof -
  have "{r \<in> {0..t}. r < c} = {0..<c}" using assms by auto
  then show ?thesis by simp
qed

lemma holds_row_iff:
  assumes inv: "sampled numToCollect kxs t ws" and dist: "distinct (map fst kxs)"
    and kx: "kx \<in> set kxs" and f: "POS_TO_OBJECT ws = Some pos_to_object"
  shows "holds_row numToCollect kx ws
     \<longleftrightarrow> (\<exists>pos. 0 \<le> pos \<and> pos < min numToCollect (int t) \<and> pos_to_object pos = fst kx)"
proof
  assume "holds_row numToCollect kx ws"
  with f inv show "\<exists>pos. 0 \<le> pos \<and> pos < min numToCollect (int t) \<and> pos_to_object pos = fst kx"
    by (auto simp: holds_row_def list_ex_iff sampled_def)
next
  assume "\<exists>pos. 0 \<le> pos \<and> pos < min numToCollect (int t) \<and> pos_to_object pos = fst kx"
  then obtain pos where pos: "0 \<le> pos" "pos < min numToCollect (int t)" "pos_to_object pos = fst kx"
    by blast
  from inv f pos(1,2) have "(pos_to_object pos, raw_data (RESERVOIR ws) pos) \<in> set (take t kxs)"
    unfolding sampled_def by auto
  then have mem: "(pos_to_object pos, raw_data (RESERVOIR ws) pos) \<in> set kxs"
    by (rule in_set_takeD)
  from dist have "inj_on fst (set kxs)" by (simp add: distinct_map)
  from inj_onD [OF this _ mem kx] pos(3)
  have "(pos_to_object pos, raw_data (RESERVOIR ws) pos) = kx" by simp
  then have "raw_data (RESERVOIR ws) pos = snd kx" by (simp add: prod_eq_iff)
  moreover from inv have "NUM_VISITED ws = int t" by (simp add: sampled_def)
  ultimately show "holds_row numToCollect kx ws"
    using f pos by (auto simp: holds_row_def list_ex_iff)
qed

lemma sample_row_const_draw:
  assumes new: "\<not> already_in_pool inp ws i" and nonneg: "0 \<le> NUM_VISITED ws"
    and ids: "OBJECT_ID inp = Some object_id"
    and index: "OBJECT_TO_POS_MAP ws = Some object_to_pos_map"
    and owners: "POS_TO_OBJECT ws = Some pos_to_object"
  shows "\<exists>ws'. sample_row (const_draw r) numToCollect inp i ws = (None, ws')
     \<and> POS_TO_OBJECT ws' =
         Some (if NUM_VISITED ws < numToCollect
               then pos_to_object(NUM_VISITED ws := raw_data object_id i)
               else if 0 \<le> r \<and> r < numToCollect
               then pos_to_object(r := raw_data object_id i)
               else pos_to_object)"
  using assms
  by (simp add: sample_row_def choose_pos_def const_draw_def bind_object_def copy_block_def
        Let_def)

lemma next_key_fresh:
  assumes "distinct (map fst kxs)" "t < length kxs"
  shows "fst (kxs ! t) \<notin> fst ` set (take t kxs)"
proof
  assume "fst (kxs ! t) \<in> fst ` set (take t kxs)"
  then obtain j where j: "j < t" "fst (kxs ! j) = fst (kxs ! t)"
    using assms(2) by (auto simp: in_set_conv_nth)
  from distinct_keys_apart [OF assms(1) j(1) order_refl assms(2)] j(2) show False by simp
qed

lemma same_key_same_row:
  assumes "distinct (map fst kxs)" "a \<in> set kxs" "b \<in> set kxs" "fst a = fst b"
  shows "a = b"
proof -
  from assms(1) have "inj_on fst (set kxs)" by (simp add: distinct_map)
  from inj_onD [OF this assms(4,2,3)] show ?thesis .
qed

lemma earlier_row_not_later:
  assumes dist: "distinct (map fst kxs)" and a: "a \<in> set (take t kxs)" and t: "t \<le> length kxs"
  shows "a \<notin> set (drop t kxs)"
proof
  assume "a \<in> set (drop t kxs)"
  then obtain j' where j': "j' < length kxs - t" "a = kxs ! (t + j')"
    by (auto simp: in_set_conv_nth)
  from a obtain j where j: "j < t" "a = kxs ! j"
    using t by (auto simp: in_set_conv_nth)
  from distinct_keys_apart [OF dist j(1), of "t + j'"] j' have
    "fst (kxs ! j) \<noteq> fst (kxs ! (t + j'))" by simp
  with j j' show False by simp
qed

lemma row_expect_inclusion:
  fixes ws :: "('b, 'm, 'g) workspace"
  assumes inv: "sampled numToCollect kxs t ws" and t: "t < length kxs"
    and dist: "distinct (map fst kxs)"
    and ids: "OBJECT_ID inp = Some object_id"
    and key: "raw_data object_id i = fst (kxs ! t)"
    and blk: "raw_data (DATA inp) i = snd (kxs ! t)"
    and kx: "kx \<in> set kxs" and cap: "0 < numToCollect"
    and cont: "\<And>ws'. sampled numToCollect kxs (Suc t) ws' \<Longrightarrow>
                 dims (RESERVOIR ws') = dims (RESERVOIR ws) \<Longrightarrow>
                 g (None, ws') = inclusion_chance numToCollect kxs kx (Suc t) ws'"
  shows "sample_row_expect numToCollect inp i ws g = inclusion_chance numToCollect kxs kx t ws"
proof -
  let ?C = numToCollect and ?N = "length kxs"
  let ?k = "fst kx" and ?key = "fst (kxs ! t)"
  from inv obtain m f where
    v: "NUM_VISITED ws = int t"
    and m: "OBJECT_TO_POS_MAP ws = Some m" and f: "POS_TO_OBJECT ws = Some f"
    and dom: "dom m \<subseteq> fst ` set (take t kxs)"
    and slots: "\<forall>pos. 0 \<le> pos \<and> pos < min ?C (int t) \<longrightarrow>
           (f pos, raw_data (RESERVOIR ws) pos) \<in> set (take t kxs)"
    and inj: "inj_on f {0..<min ?C (int t)}"
    unfolding sampled_def by blast
  note fresh = next_key_fresh [OF dist t]
  with dom key m ids have new: "\<not> already_in_pool inp ws i"
    by (auto simp: already_in_pool_def)
  have nonneg: "0 \<le> NUM_VISITED ws" using v by simp
  define step where "step r = snd (sample_row (const_draw r) ?C inp i ws)" for r
  define f' where "f' r = (if int t < ?C then f(int t := ?key)
      else if 0 \<le> r \<and> r < ?C then f(r := ?key) else f)" for r
  have run: "sample_row (const_draw r) ?C inp i ws = (None, step r)"
    and inv': "sampled ?C kxs (Suc t) (step r)"
    and dims': "dims (RESERVOIR (step r)) = dims (RESERVOIR ws)"
    and owner': "POS_TO_OBJECT (step r) = Some (f' r)" for r
  proof -
    from sample_row_sampled [OF inv t dist ids key blk, of "const_draw r"]
    obtain ws' where a: "sample_row (const_draw r) ?C inp i ws = (None, ws')"
      "sampled ?C kxs (Suc t) ws'" "dims (RESERVOIR ws') = dims (RESERVOIR ws)"
      by blast
    then have s: "step r = ws'" by (simp add: step_def)
    from a s show "sample_row (const_draw r) ?C inp i ws = (None, step r)"
      "sampled ?C kxs (Suc t) (step r)" "dims (RESERVOIR (step r)) = dims (RESERVOIR ws)"
      by simp_all
    from sample_row_const_draw [OF new nonneg ids m f, of r ?C] a(1) s
    show "POS_TO_OBJECT (step r) = Some (f' r)"
      by (simp add: f'_def v key)
  qed
  have gval: "g (sample_row (const_draw r) ?C inp i ws) = inclusion_chance ?C kxs kx (Suc t) (step r)"
    for r
    unfolding run by (rule cont [OF inv' dims'])
  have hold: "holds_row ?C kx ws \<longleftrightarrow> (\<exists>pos. 0 \<le> pos \<and> pos < min ?C (int t) \<and> f pos = ?k)"
    by (rule holds_row_iff [OF inv dist kx f])
  have hold': "holds_row ?C kx (step r)
      \<longleftrightarrow> (\<exists>pos. 0 \<le> pos \<and> pos < min ?C (int (Suc t)) \<and> f' r pos = ?k)" for r
    by (rule holds_row_iff [OF inv' dist kx owner'])
  have nth_mem: "kxs ! t \<in> set kxs" using t by simp
  have same: "?key = ?k \<longleftrightarrow> kx = kxs ! t"
    using same_key_same_row [OF dist nth_mem kx] by auto
  have drop_t: "drop t kxs = kxs ! t # drop (Suc t) kxs"
    using t by (simp add: Cons_nth_drop_Suc)
  have at_t_only: "kxs ! t \<notin> set (drop (Suc t) kxs)"
  proof -
    have "kxs ! t \<in> set (take (Suc t) kxs)" using t by (simp add: take_Suc_conv_app_nth)
    from earlier_row_not_later [OF dist this] t show ?thesis by simp
  qed
  have held_old: "kx \<in> set (take t kxs)" if "holds_row ?C kx ws"
  proof -
    from that hold obtain pos where pos: "0 \<le> pos" "pos < min ?C (int t)" "f pos = ?k" by blast
    with slots have mem: "(f pos, raw_data (RESERVOIR ws) pos) \<in> set (take t kxs)" by blast
    from same_key_same_row [OF dist in_set_takeD [OF mem] kx] pos(3) mem show ?thesis by simp
  qed
  have Npos: "(of_nat ?N :: rat) \<noteq> 0" using t by auto
  show ?thesis
  proof (cases "int t < ?C")
    case True
    then have nodraw: "\<not> reaches_draw ?C inp i ws" by (simp add: reaches_draw_def v)
    have mx: "max (int (Suc t)) ?C = ?C" "max (1 + int t) ?C = ?C" "max (int t) ?C = ?C"
      using True by simp_all
    have "holds_row ?C kx (step 0) \<longleftrightarrow> holds_row ?C kx ws \<or> kx = kxs ! t"
    proof -
      have "(\<exists>pos. 0 \<le> pos \<and> pos < min ?C (int (Suc t)) \<and> (f(int t := ?key)) pos = ?k)
          \<longleftrightarrow> (\<exists>pos. 0 \<le> pos \<and> pos < min ?C (int t) \<and> f pos = ?k) \<or> ?key = ?k"
        (is "?L \<longleftrightarrow> ?R")
      proof
        assume ?L
        then obtain pos where p: "0 \<le> pos" "pos < min ?C (int (Suc t))"
          "(f(int t := ?key)) pos = ?k" by blast
        show ?R
        proof (cases "pos = int t")
          case True
          with p show ?thesis by simp
        next
          case False
          with p True have "0 \<le> pos \<and> pos < min ?C (int t) \<and> f pos = ?k" by simp
          then show ?thesis by blast
        qed
      next
        assume ?R
        then show ?L
        proof
          assume "\<exists>pos. 0 \<le> pos \<and> pos < min ?C (int t) \<and> f pos = ?k"
          then obtain pos where p: "0 \<le> pos" "pos < min ?C (int t)" "f pos = ?k" by blast
          then have "0 \<le> pos \<and> pos < min ?C (int (Suc t)) \<and> (f(int t := ?key)) pos = ?k"
            by simp
          then show ?L by blast
        next
          assume "?key = ?k"
          with True have "0 \<le> int t \<and> int t < min ?C (int (Suc t))
              \<and> (f(int t := ?key)) (int t) = ?k" by simp
          then show ?L by blast
        qed
      qed
      with hold hold' [of 0] True same show ?thesis by (simp add: f'_def)
    qed
    moreover have "kx \<notin> set (drop t kxs)" if "holds_row ?C kx ws"
      using earlier_row_not_later [OF dist held_old [OF that]] t by simp
    ultimately have "inclusion_chance ?C kxs kx (Suc t) (step 0) = inclusion_chance ?C kxs kx t ws"
      using at_t_only by (auto simp: inclusion_chance_def mx drop_t)
    with nodraw gval [of 0] show ?thesis by (simp add: sample_row_expect_def)
  next
    case False
    then have full: "?C \<le> int t" by simp
    from new False have draw: "reaches_draw ?C inp i ws" by (simp add: reaches_draw_def v)
    have mn: "min ?C (int (Suc t)) = ?C" "min ?C (int t) = ?C" using full by simp_all
    have mx: "max (int (Suc t)) ?C = int t + 1" "max (1 + int t) ?C = int t + 1"
      "max (int t) ?C = int t" using full by simp_all
    have T: "(of_int (int t + 1) :: rat) \<noteq> 0" by (simp add: of_int_eq_0_iff [symmetric] del: of_int_add)
    have expect: "sample_row_expect ?C inp i ws g
        = (\<Sum>r\<leftarrow>[0..int t]. inclusion_chance ?C kxs kx (Suc t) (step r)) / of_int (int t + 1)"
      using draw by (simp add: sample_row_expect_def v gval)
    show ?thesis
    proof (cases "holds_row ?C kx ws")
      case True
      from True hold mn obtain s where s: "0 \<le> s" "s < ?C" "f s = ?k" by auto
      from inj have injC: "inj_on f {0..<?C}" by (simp add: mn)
      have uniq: "pos = s" if "0 \<le> pos" "pos < ?C" "f pos = ?k" for pos
        using inj_onD [OF injC, of pos s] that s by simp
      from held_old [OF True] have old: "kx \<in> set (take t kxs)" .
      then have "?k \<in> fst ` set (take t kxs)" by force
      with fresh have neq: "?key \<noteq> ?k" by metis
      from earlier_row_not_later [OF dist old] t have notlater: "kx \<notin> set (drop t kxs)" by simp
      then have notlater': "kx \<notin> set (drop (Suc t) kxs)" by (simp add: drop_t)
      have after: "holds_row ?C kx (step r) \<longleftrightarrow> r \<noteq> s" for r
      proof -
        have "(\<exists>pos. 0 \<le> pos \<and> pos < ?C \<and> f' r pos = ?k) \<longleftrightarrow> r \<noteq> s"
        proof (cases "0 \<le> r \<and> r < ?C")
          case in_range: True
          then have fr: "f' r = f(r := ?key)" using False by (simp add: f'_def)
          show ?thesis
          proof
            assume "\<exists>pos. 0 \<le> pos \<and> pos < ?C \<and> f' r pos = ?k"
            then obtain pos where p: "0 \<le> pos" "pos < ?C" "f' r pos = ?k" by blast
            with fr neq have "pos \<noteq> r" "f pos = ?k" by (auto split: if_splits)
            with uniq [OF p(1,2)] show "r \<noteq> s" by simp
          next
            assume "r \<noteq> s"
            with s fr have "0 \<le> s \<and> s < ?C \<and> f' r s = ?k" by simp
            then show "\<exists>pos. 0 \<le> pos \<and> pos < ?C \<and> f' r pos = ?k" by blast
          qed
        next
          case out: False
          then have "f' r = f" using False by (auto simp: f'_def)
          moreover from out s have "r \<noteq> s" by auto
          ultimately show ?thesis using s by auto
        qed
        with hold' [of r] mn show ?thesis by simp
      qed
      have "inclusion_chance ?C kxs kx (Suc t) (step r)
          = (if r \<noteq> s then of_int (int t + 1) / of_nat ?N else 0)" for r
        using after [of r] notlater' by (simp add: inclusion_chance_def mx)
      then have "(\<Sum>r\<leftarrow>[0..int t]. inclusion_chance ?C kxs kx (Suc t) (step r))
          = (\<Sum>r\<leftarrow>[0..int t]. if r \<noteq> s then of_int (int t + 1) / of_nat ?N else (0::rat))"
        by simp
      also have "\<dots> = of_nat t * (of_int (int t + 1) / of_nat ?N)"
        using s full card_upto_except [of s "int t"]
        by (simp add: sum_list_upto_cases)
      finally have "sample_row_expect ?C inp i ws g
          = of_nat t * (of_int (int t + 1) / of_nat ?N) / of_int (int t + 1)"
        using expect by simp
      also have "\<dots> = of_nat t / of_nat ?N" using T by simp
      finally show ?thesis using True by (simp add: inclusion_chance_def mx)
    next
      case nothold: False
      show ?thesis
      proof (cases "kx = kxs ! t")
        case True
        with same have eq: "?key = ?k" by simp
        have after: "holds_row ?C kx (step r) \<longleftrightarrow> 0 \<le> r \<and> r < ?C" for r
        proof -
          have "(\<exists>pos. 0 \<le> pos \<and> pos < ?C \<and> f' r pos = ?k) \<longleftrightarrow> 0 \<le> r \<and> r < ?C"
          proof (cases "0 \<le> r \<and> r < ?C")
            case in_range: True
            then have "f' r r = ?k" using False eq by (simp add: f'_def)
            with in_range show ?thesis by blast
          next
            case out: False
            then have "f' r = f" using False by (auto simp: f'_def)
            with nothold hold mn out show ?thesis by auto
          qed
          with hold' [of r] mn show ?thesis by simp
        qed
        have "inclusion_chance ?C kxs kx (Suc t) (step r)
            = (if r < ?C then of_int (int t + 1) / of_nat ?N else 0)" if "r \<in> set [0..int t]" for r
          using after [of r] at_t_only True that by (auto simp: inclusion_chance_def mx)
        then have "(\<Sum>r\<leftarrow>[0..int t]. inclusion_chance ?C kxs kx (Suc t) (step r))
            = (\<Sum>r\<leftarrow>[0..int t]. if r < ?C then of_int (int t + 1) / of_nat ?N else (0::rat))"
          by (intro arg_cong [where f = sum_list] map_cong refl)
        also have "\<dots> = of_nat (card {r \<in> {0..int t}. r < ?C}) * (of_int (int t + 1) / of_nat ?N)"
          by (simp add: sum_list_upto_cases)
        finally have "sample_row_expect ?C inp i ws g
            = of_nat (card {r \<in> {0..int t}. r < ?C}) * (of_int (int t + 1) / of_nat ?N)
                / of_int (int t + 1)"
          using expect by simp
        also have "\<dots> = of_nat (card {r \<in> {0..int t}. r < ?C}) / of_nat ?N" using T by simp
        finally have e: "sample_row_expect ?C inp i ws g
            = of_nat (card {r \<in> {0..int t}. r < ?C}) / of_nat ?N" .
        have "inclusion_chance ?C kxs kx t ws = of_int ?C / of_nat ?N"
          using nothold True by (simp add: inclusion_chance_def drop_t)
        moreover have "(of_nat (card {r \<in> {0..int t}. r < ?C}) :: rat) = of_int ?C"
          using card_upto_below [of ?C "int t"] full cap by simp
        ultimately show ?thesis using e by simp
      next
        case neq: False
        with same have kne: "?key \<noteq> ?k" by simp
        have after: "\<not> holds_row ?C kx (step r)" for r
        proof -
          have "\<not> (\<exists>pos. 0 \<le> pos \<and> pos < ?C \<and> f' r pos = ?k)"
          proof
            assume "\<exists>pos. 0 \<le> pos \<and> pos < ?C \<and> f' r pos = ?k"
            then obtain pos where p: "0 \<le> pos" "pos < ?C" "f' r pos = ?k" by blast
            with kne False have "f pos = ?k" by (auto simp: f'_def split: if_splits)
            with p nothold hold mn show False by auto
          qed
          with hold' [of r] mn show ?thesis by simp
        qed
        have later: "kx \<in> set (drop (Suc t) kxs) \<longleftrightarrow> kx \<in> set (drop t kxs)"
          using neq by (simp add: drop_t)
        have c: "inclusion_chance ?C kxs kx (Suc t) (step r) = inclusion_chance ?C kxs kx t ws" for r
          using after [of r] nothold later by (simp add: inclusion_chance_def)
        have "(\<Sum>r\<leftarrow>[0..int t]. inclusion_chance ?C kxs kx (Suc t) (step r))
            = of_int (int t + 1) * inclusion_chance ?C kxs kx t ws"
          unfolding c by (simp add: sum_list_triv)
        with expect T show ?thesis by simp
      qed
    qed
  qed
qed

declare sample_rows_expect.simps [simp del]

lemma rows_expect_inclusion:
  fixes ws :: "('b, 'm, 'g) workspace"
  assumes "sampled numToCollect kxs t ws"
    and dist: "distinct (map fst kxs)"
    and ids: "OBJECT_ID inp = Some object_id"
    and "\<forall>j. i \<le> j \<and> j < num_entries \<longrightarrow>
           (raw_data object_id j, raw_data (DATA inp) j) = kxs ! (t + nat (j - i))"
    and "t + nat (num_entries - i) \<le> length kxs"
    and kx: "kx \<in> set kxs" and cap: "0 < numToCollect"
    and "\<And>ws' :: ('b, 'm, 'g) workspace.
            sampled numToCollect kxs (t + nat (num_entries - i)) ws' \<Longrightarrow>
            dims (RESERVOIR ws') = dims (RESERVOIR ws) \<Longrightarrow>
            g (None, ws') = inclusion_chance numToCollect kxs kx (t + nat (num_entries - i)) ws'"
  shows "sample_rows_expect numToCollect inp i num_entries ws g
           = inclusion_chance numToCollect kxs kx t ws"
  using assms(1,4,5,8)
proof (induction k \<equiv> "nat (num_entries - i)" arbitrary: i t ws)
  case 0
  then have over: "\<not> i < num_entries" by simp
  from 0(1) [symmetric] "0.prems"(1) "0.prems"(4) [of ws]
  have "g (None, ws) = inclusion_chance numToCollect kxs kx t ws" by simp
  with over show ?case by (simp add: sample_rows_expect.simps)
next
  case (Suc k)
  from Suc.hyps(2) have more: "i < num_entries" by simp
  from Suc.hyps(2) have k: "k = nat (num_entries - (i + 1))" by simp
  from more have cnt: "Suc t + nat (num_entries - (i + 1)) = t + nat (num_entries - i)"
    by linarith
  from more Suc.prems(3) have t: "t < length kxs" by simp
  from more Suc.prems(2) have row: "(raw_data object_id i, raw_data (DATA inp) i) = kxs ! t"
    by force
  then have key: "raw_data object_id i = fst (kxs ! t)"
    and blk: "raw_data (DATA inp) i = snd (kxs ! t)"
    by (simp_all add: prod_eq_iff)
  have rows1: "\<forall>j. i + 1 \<le> j \<and> j < num_entries \<longrightarrow>
           (raw_data object_id j, raw_data (DATA inp) j) = kxs ! (Suc t + nat (j - (i + 1)))"
  proof (intro allI impI)
    fix j assume j: "i + 1 \<le> j \<and> j < num_entries"
    then have e: "Suc t + nat (j - (i + 1)) = t + nat (j - i)" by linarith
    from j have "i \<le> j \<and> j < num_entries" by simp
    with Suc.prems(2) have "(raw_data object_id j, raw_data (DATA inp) j)
          = kxs ! (t + nat (j - i))" by blast
    then show "(raw_data object_id j, raw_data (DATA inp) j)
          = kxs ! (Suc t + nat (j - (i + 1)))" by (simp only: e)
  qed
  from Suc.prems(3) have len1: "Suc t + nat (num_entries - (i + 1)) \<le> length kxs"
    by (simp only: cnt)
  let ?rest = "\<lambda>out. case out of
                    (Some e, ws') \<Rightarrow> g (Some e, ws')
                  | (None, ws') \<Rightarrow> sample_rows_expect numToCollect inp (i + 1) num_entries ws' g"
  have rest: "?rest (None, ws') = inclusion_chance numToCollect kxs kx (Suc t) ws'"
    if inv1: "sampled numToCollect kxs (Suc t) ws'"
      and d1: "dims (RESERVOIR ws') = dims (RESERVOIR ws)"
    for ws' :: "('b, 'm, 'g) workspace"
  proof -
    have "sample_rows_expect numToCollect inp (i + 1) num_entries ws' g
        = inclusion_chance numToCollect kxs kx (Suc t) ws'"
    proof (rule Suc.hyps(1) [OF k inv1 rows1 len1])
      fix w :: "('b, 'm, 'g) workspace"
      assume "sampled numToCollect kxs (Suc t + nat (num_entries - (i + 1))) w"
        and "dims (RESERVOIR w) = dims (RESERVOIR ws')"
      then have "sampled numToCollect kxs (t + nat (num_entries - i)) w"
        and "dims (RESERVOIR w) = dims (RESERVOIR ws)"
        by (simp_all only: cnt d1)
      from Suc.prems(4) [OF this]
      show "g (None, w) = inclusion_chance numToCollect kxs kx
          (Suc t + nat (num_entries - (i + 1))) w"
        by (simp only: cnt)
    qed
    then show ?thesis by simp
  qed
  have "sample_row_expect numToCollect inp i ws ?rest = inclusion_chance numToCollect kxs kx t ws"
    by (rule row_expect_inclusion [OF Suc.prems(1) t dist ids key blk kx cap rest])
  with more show ?case by (simp add: sample_rows_expect.simps [of numToCollect inp i])
qed

lemma holds_row_reshape:
  "holds_row numToCollect kx (ws\<lparr>RESERVOIR := (RESERVOIR ws)\<lparr>dims := ds, meta := mt\<rparr>\<rparr>)
     = holds_row numToCollect kx ws"
  by (simp add: holds_row_def split: option.splits)

lemma inclusion_chance_reshape:
  "inclusion_chance numToCollect kxs kx t (ws\<lparr>RESERVOIR := (RESERVOIR ws)\<lparr>dims := ds, meta := mt\<rparr>\<rparr>)
     = inclusion_chance numToCollect kxs kx t ws"
  by (simp add: inclusion_chance_def holds_row_reshape)

lemma RunOnDevice_expect_inclusion:
  fixes ws :: "('b, 'm, 'g) workspace"
  assumes inv: "between_calls numToCollect shape kxs t ws"
    and cap: "0 < numToCollect"
    and dist: "distinct (map fst kxs)"
    and nxt: "take (length kxs_b) (drop t kxs) = kxs_b"
    and kx: "kx \<in> set kxs"
    and cont: "\<And>ws' :: ('b, 'm, 'g) workspace.
            between_calls numToCollect shape kxs (t + length kxs_b) ws' \<Longrightarrow>
            g (None, ws') = inclusion_chance numToCollect kxs kx (t + length kxs_b) ws'"
  shows "RunOnDevice_expect numToCollect (keyed_batch m shape dflt kxs_b) ws g
           = inclusion_chance numToCollect kxs kx t ws"
proof (cases "kxs_b = []")
  case True
  let ?inp = "keyed_batch m shape dflt kxs_b"
  from True before_loop_between_calls [OF inv cap dist nxt, of m dflt]
  obtain ws' where bl: "before_loop numToCollect ?inp ws = Inl (None, ws')"
    and inv': "between_calls numToCollect shape kxs t ws'"
    by blast
  from before_loop_Inl [OF bl]
  have "inclusion_chance numToCollect kxs kx t ws' = inclusion_chance numToCollect kxs kx t ws"
    by (metis inclusion_chance_reshape)
  moreover from cont [of ws'] inv' True
  have "g (None, ws') = inclusion_chance numToCollect kxs kx t ws'" by simp
  ultimately show ?thesis using bl by (simp add: RunOnDevice_expect_def)
next
  case False
  let ?inp = "keyed_batch m shape dflt kxs_b"
  let ?n = "length kxs_b"
  from False before_loop_between_calls [OF inv cap dist nxt, of m dflt]
  obtain ws3 where bl: "before_loop numToCollect ?inp ws = Inr (int ?n, int ?n, ws3)"
    and smp3: "sampled numToCollect kxs t ws3"
    and len: "t + ?n \<le> length kxs"
    and fin: "\<And>ws4 :: ('b, 'm, 'g) workspace. sampled numToCollect kxs (t + ?n) ws4 \<Longrightarrow>
                dims (RESERVOIR ws4) = dims (RESERVOIR ws3) \<Longrightarrow>
                between_calls numToCollect shape kxs (t + ?n) ws4"
    by blast
  from len have len': "t + nat (int ?n - 0) \<le> length kxs" by simp
  from smp3 have v3: "NUM_VISITED ws3 = int t" by (simp add: sampled_def)
  let ?g = "\<lambda>out. g (sanity_check (NUM_VISITED ws3) (int ?n) out)"
  have after: "?g (None, ws4) = inclusion_chance numToCollect kxs kx (t + nat (int ?n - 0)) ws4"
    if "sampled numToCollect kxs (t + nat (int ?n - 0)) ws4"
      "dims (RESERVOIR ws4) = dims (RESERVOIR ws3)"
    for ws4 :: "('b, 'm, 'g) workspace"
  proof -
    from that(1) have s4: "sampled numToCollect kxs (t + ?n) ws4" by simp
    then have "NUM_VISITED ws4 = int t + int ?n" by (simp add: sampled_def)
    with v3 have "sanity_check (NUM_VISITED ws3) (int ?n) (None, ws4) = (None, ws4)"
      by (simp add: sanity_check_def)
    with cont [OF fin [OF s4 that(2)]] show ?thesis by simp
  qed
  have "sample_rows_expect numToCollect ?inp 0 (int ?n) ws3 ?g
      = inclusion_chance numToCollect kxs kx t ws3"
    by (rule rows_expect_inclusion [OF smp3 dist keyed_batch_simps(2) [of m shape dflt kxs_b]
          keyed_batch_rows [OF nxt len, of m shape dflt] len' kx cap after])
  moreover from before_loop_Inr(1) [OF bl]
  have "inclusion_chance numToCollect kxs kx t ws3 = inclusion_chance numToCollect kxs kx t ws"
    by (metis inclusion_chance_reshape)
  ultimately show ?thesis using bl by (simp add: RunOnDevice_expect_def)
qed

lemma feed_expect_inclusion:
  fixes ws :: "('b, 'm, 'g) workspace"
  assumes "between_calls numToCollect shape kxs t ws"
    and cap: "0 < numToCollect"
    and dist: "distinct (map fst kxs)"
    and "drop t kxs = concat kxss" and "t \<le> length kxs"
    and kx: "kx \<in> set kxs" and enough: "numToCollect \<le> int (length kxs)"
  shows "feed_expect numToCollect (map (keyed_batch m shape dflt) kxss) ws (present numToCollect kx)
           = inclusion_chance numToCollect kxs kx t ws"
  using assms(1,4,5)
proof (induction kxss arbitrary: t ws)
  case Nil
  then have t: "t = length kxs" by simp
  from kx have "kxs \<noteq> []" by auto
  with enough t show ?case
    by (simp add: present_def inclusion_chance_def max_def)
next
  case (Cons kxs_b kxss)
  from Cons.prems(2) have nxt: "take (length kxs_b) (drop t kxs) = kxs_b" by simp
  from Cons.prems(2) have rest: "drop (t + length kxs_b) kxs = concat kxss"
    by (metis add.commute append_eq_conv_conj concat.simps(2) drop_drop)
  have "length (drop t kxs) = length kxs_b + length (concat kxss)"
    by (simp only: Cons.prems(2) concat.simps length_append)
  with Cons.prems(3) have le: "t + length kxs_b \<le> length kxs" by simp
  let ?rest = "\<lambda>out. case out of
                 (Some e, ws') \<Rightarrow> present numToCollect kx (Some e, ws')
               | (None, ws') \<Rightarrow> feed_expect numToCollect (map (keyed_batch m shape dflt) kxss) ws'
                                   (present numToCollect kx)"
  have "?rest (None, ws') = inclusion_chance numToCollect kxs kx (t + length kxs_b) ws'"
    if "between_calls numToCollect shape kxs (t + length kxs_b) ws'"
    for ws' :: "('b, 'm, 'g) workspace"
    using Cons.IH [OF that rest le] by simp
  from RunOnDevice_expect_inclusion [OF Cons.prems(1) cap dist nxt kx this, of m dflt]
  show ?case by simp
qed

section \<open>The sampling decision\<close>

text \<open>
  Claim C1. A row that is not skipped as a duplicate is processed with the current visit
  count \<open>v\<close> as follows. If \<open>v < numToCollect\<close> its block is written to slot \<open>v\<close>.
  Otherwise a value \<open>r\<close> is drawn from the uniform distribution on the closed interval
  \<open>[0, v]\<close>; the block is written to slot \<open>r\<close> when \<open>r < numToCollect\<close>, and nothing is
  written when \<open>r \<ge> numToCollect\<close>. In each of the three cases the iteration succeeds and
  the visit count becomes \<open>v + 1\<close>. The count \<open>v\<close> is a non-negative \<^verbatim>\<open>int64_t\<close> below
  \<open>INT64_MAX\<close>, so that the increment at line 132 does not overflow.
\<close>

theorem sample_row_decision:
  assumes new: "\<not> already_in_pool inp ws i"
    and nonneg: "0 \<le> NUM_VISITED ws"
    and below: "NUM_VISITED ws < INT64_MAX"
    and range: "draws_in_range uniformDist"
  shows "\<exists>ws'. sample_row uniformDist numToCollect inp i ws = (None, ws')
      \<and> NUM_VISITED ws' = NUM_VISITED ws + 1
      \<and> NUM_VISITED ws' \<le> INT64_MAX
      \<and> (if NUM_VISITED ws < numToCollect
         then raw_data (RESERVOIR ws')
                = (raw_data (RESERVOIR ws))(NUM_VISITED ws := raw_data (DATA inp) i)
         else (let r = fst (uniformDist (RandGenerator ws) 0 (NUM_VISITED ws))
               in 0 \<le> r \<and> r \<le> NUM_VISITED ws
                \<and> (if r < numToCollect
                    then raw_data (RESERVOIR ws')
                           = (raw_data (RESERVOIR ws))(r := raw_data (DATA inp) i)
                    else RESERVOIR ws' = RESERVOIR ws
                       \<and> OBJECT_TO_POS_MAP ws' = OBJECT_TO_POS_MAP ws
                       \<and> POS_TO_OBJECT ws' = POS_TO_OBJECT ws)))"
proof (cases "NUM_VISITED ws < numToCollect")
  case True
  then show ?thesis
    using new nonneg below
    by (simp add: sample_row_def choose_pos_def Let_def bind_object_fields copy_block_fields)
next
  case False
  obtain r g' where d: "uniformDist (RandGenerator ws) 0 (NUM_VISITED ws) = (r, g')"
    by (cases "uniformDist (RandGenerator ws) 0 (NUM_VISITED ws)")
  from draws_in_rangeD [OF range nonneg d] have r: "0 \<le> r" "r \<le> NUM_VISITED ws" by simp_all
  show ?thesis
  proof (cases "r < numToCollect")
    case True
    with False new r d below show ?thesis
      by (simp add: sample_row_def choose_pos_def Let_def bind_object_fields copy_block_fields)
  next
    case ge: False
    with False new r d below show ?thesis
      by (simp add: sample_row_def choose_pos_def Let_def)
  qed
qed

text \<open>
  An instance: capacity 2, two rows visited, generator state 1. The draw from \<open>[0, 2]\<close>
  is 1, so the row with block \<open>c\<close> replaces slot 1 and the count becomes 3.
\<close>

theorem sample_row_decision_witness:
  "\<not> already_in_pool (keyed_batch (1::nat) [] (CHR ''_'') [(3, CHR ''c'')])
        ((empty_workspace 1 (CHR ''_'') 0 (1::int))\<lparr>NUM_VISITED := 2\<rparr>) 0
   \<and> 0 \<le> NUM_VISITED ((empty_workspace (1::nat) (CHR ''_'') 0 (1::int))\<lparr>NUM_VISITED := 2\<rparr>)
   \<and> NUM_VISITED ((empty_workspace (1::nat) (CHR ''_'') 0 (1::int))\<lparr>NUM_VISITED := 2\<rparr>)
       < INT64_MAX
   \<and> draws_in_range counter_draw
   \<and> (\<exists>ws'. sample_row counter_draw 2 (keyed_batch (1::nat) [] (CHR ''_'') [(3, CHR ''c'')]) 0
                ((empty_workspace 1 (CHR ''_'') 0 (1::int))\<lparr>NUM_VISITED := 2\<rparr>) = (None, ws')
          \<and> NUM_VISITED ws' = 3
          \<and> raw_data (RESERVOIR ws') 1 = CHR ''c'')"
proof -
  let ?inp = "keyed_batch (1::nat) [] (CHR ''_'') [(3, CHR ''c'')]"
  let ?ws = "(empty_workspace (1::nat) (CHR ''_'') 0 (1::int))\<lparr>NUM_VISITED := 2\<rparr>"
  have h1: "\<not> already_in_pool ?inp ?ws 0"
    by (simp add: already_in_pool_def operand_defs)
  have h2: "0 \<le> NUM_VISITED ?ws" by simp
  have h3: "NUM_VISITED ?ws < INT64_MAX" by (simp add: INT64_MAX_def)
  have r: "fst (counter_draw (RandGenerator ?ws) 0 (NUM_VISITED ?ws)) = 1"
    by (simp add: counter_draw_def operand_defs)
  from sample_row_decision [OF h1 h2 h3 draws_in_range_counter, of 2]
  obtain ws' where "sample_row counter_draw 2 ?inp 0 ?ws = (None, ws')"
    "NUM_VISITED ws' = 3"
    "raw_data (RESERVOIR ws') = (raw_data (RESERVOIR ?ws))(1 := raw_data (DATA ?inp) 0)"
    unfolding Let_def r by auto
  moreover have "raw_data (DATA ?inp) 0 = CHR ''c''" by (simp add: operand_defs)
  ultimately show ?thesis using h1 h2 h3 draws_in_range_counter by auto
qed

section \<open>Writes stay inside the capacity\<close>

text \<open>
  Claim C10. Every block copy into the reservoir targets a slot \<open>pos\<close> with
  \<open>0 \<le> pos < numToCollect\<close>, and the owner array is read and written at that same slot:
  an iteration either leaves reservoir and owner array alone or writes slot \<open>pos\<close> of
  both, whatever the state and whatever the generator returns. Hence a call of the
  operator changes no reservoir row and no owner entry outside \<open>[0, numToCollect)\<close>, the
  capacity reserved at the start of the call.
\<close>

theorem writes_within_capacity:
  "(\<forall>i w res w'.
       sample_row uniformDist numToCollect inp i w = (res, w') \<longrightarrow>
         (RESERVOIR w' = RESERVOIR w \<and> POS_TO_OBJECT w' = POS_TO_OBJECT w)
       \<or> (\<exists>pos. 0 \<le> pos \<and> pos < numToCollect
             \<and> RESERVOIR w' = RESERVOIR (copy_block inp i pos w)
             \<and> POS_TO_OBJECT w' = POS_TO_OBJECT (bind_object inp i pos w)))
   \<and> (\<forall>p. \<not> (0 \<le> p \<and> p < numToCollect) \<longrightarrow>
          raw_data (RESERVOIR (snd (RunOnDevice uniformDist numToCollect inp ws))) p
            = raw_data (RESERVOIR ws) p
        \<and> map_option (\<lambda>pos_to_object. pos_to_object p)
             (POS_TO_OBJECT (snd (RunOnDevice uniformDist numToCollect inp ws)))
            = map_option (\<lambda>pos_to_object. pos_to_object p) (POS_TO_OBJECT ws))"
proof (intro conjI allI impI)
  fix i w res w'
  assume run: "sample_row uniformDist numToCollect inp i w = (res, w')"
  from run show "(RESERVOIR w' = RESERVOIR w \<and> POS_TO_OBJECT w' = POS_TO_OBJECT w)
            \<or> (\<exists>pos. 0 \<le> pos \<and> pos < numToCollect
                  \<and> RESERVOIR w' = RESERVOIR (copy_block inp i pos w)
                  \<and> POS_TO_OBJECT w' = POS_TO_OBJECT (bind_object inp i pos w))"
  proof (cases rule: sample_row_cases)
    case skip
    then show ?thesis by simp
  next
    case (fail pos g')
    then show ?thesis by simp
  next
    case (discard pos g')
    then show ?thesis by simp
  next
    case (store pos g')
    from choose_pos_below(1) [OF store(2)] store(3)
    have "0 \<le> pos \<and> pos < numToCollect" by auto
    moreover from store(5) have "RESERVOIR w' = RESERVOIR (copy_block inp i pos w)"
      by (simp add: bind_object_fields copy_block_def)
    moreover from store(5) have "POS_TO_OBJECT w' = POS_TO_OBJECT (bind_object inp i pos w)"
      by (simp add: bind_object_def copy_block_def Let_def split: option.splits)
    ultimately show ?thesis by blast
  qed
next
  fix p assume out: "\<not> (0 \<le> p \<and> p < numToCollect)"
  show "raw_data (RESERVOIR (snd (RunOnDevice uniformDist numToCollect inp ws))) p
              = raw_data (RESERVOIR ws) p"
  proof (cases "before_loop numToCollect inp ws")
    case (Inl out)
    obtain res w where o: "out = (res, w)" by (cases out)
    have "raw_data (RESERVOIR w) = raw_data (RESERVOIR ws)"
      by (subst before_loop_Inl [OF Inl [unfolded o]], simp)
    with Inl o show ?thesis by (simp add: RunOnDevice_def)
  next
    case (Inr t)
    obtain n k w where t: "t = (n, k, w)" by (cases t)
    note b = before_loop_Inr [OF Inr [unfolded t]]
    have w: "raw_data (RESERVOIR w) = raw_data (RESERVOIR ws)"
      by (subst b(1), simp)
    from sample_rows_frame(5) [OF refl out, of uniformDist inp 0 n w] w Inr t
    show ?thesis by (simp add: RunOnDevice_def sanity_check_snd)
  qed
  show "map_option (\<lambda>pos_to_object. pos_to_object p)
          (POS_TO_OBJECT (snd (RunOnDevice uniformDist numToCollect inp ws)))
              = map_option (\<lambda>pos_to_object. pos_to_object p) (POS_TO_OBJECT ws)"
  proof (cases "before_loop numToCollect inp ws")
    case (Inl out)
    obtain res w where o: "out = (res, w)" by (cases out)
    have "POS_TO_OBJECT w = POS_TO_OBJECT ws"
      by (subst before_loop_Inl [OF Inl [unfolded o]], simp)
    with Inl o show ?thesis by (simp add: RunOnDevice_def)
  next
    case (Inr t)
    obtain n k w where t: "t = (n, k, w)" by (cases t)
    note b = before_loop_Inr [OF Inr [unfolded t]]
    have w: "POS_TO_OBJECT w = POS_TO_OBJECT ws"
      by (subst b(1), simp)
    from sample_rows_frame(6) [OF refl out, of uniformDist inp 0 n w] w Inr t
    show ?thesis by (simp add: RunOnDevice_def sanity_check_snd)
  qed
qed

text \<open>
  An instance: three keyed rows into an empty reservoir of capacity 2. The third row
  draws 0 and replaces slot 0; slot 2 of the reservoir and of the owner array is
  untouched.
\<close>

theorem writes_within_capacity_witness:
  "\<not> (0 \<le> (2::int) \<and> (2::int) < 2)
   \<and> raw_data (RESERVOIR (snd (RunOnDevice counter_draw 2
        (keyed_batch (1::nat) [] (CHR ''_'') [(1, CHR ''a''), (2, CHR ''b''), (3, CHR ''c'')])
        (empty_workspace 1 (CHR ''_'') 0 0)))) 2 = CHR ''_''
   \<and> map_option (\<lambda>pos_to_object. pos_to_object 2) (POS_TO_OBJECT (snd (RunOnDevice counter_draw 2
        (keyed_batch (1::nat) [] (CHR ''_'') [(1, CHR ''a''), (2, CHR ''b''), (3, CHR ''c'')])
        (empty_workspace 1 (CHR ''_'') 0 0)))) = Some 0
   \<and> raw_data (RESERVOIR (snd (RunOnDevice counter_draw 2
        (keyed_batch (1::nat) [] (CHR ''_'') [(1, CHR ''a''), (2, CHR ''b''), (3, CHR ''c'')])
        (empty_workspace 1 (CHR ''_'') 0 0)))) 0 = CHR ''c''"
proof -
  let ?inp = "keyed_batch (1::nat) [] (CHR ''_'') [(1, CHR ''a''), (2, CHR ''b''), (3, CHR ''c'')]"
  let ?ws = "empty_workspace (1::nat) (CHR ''_'') 0 (0::int)"
  have out: "\<not> (0 \<le> (2::int) \<and> (2::int) < 2)" by simp
  from writes_within_capacity [of counter_draw 2 ?inp ?ws] out
  have "raw_data (RESERVOIR (snd (RunOnDevice counter_draw 2 ?inp ?ws))) 2
          = raw_data (RESERVOIR ?ws) 2"
    and "map_option (\<lambda>pos_to_object. pos_to_object 2)
           (POS_TO_OBJECT (snd (RunOnDevice counter_draw 2 ?inp ?ws)))
          = map_option (\<lambda>pos_to_object. pos_to_object 2) (POS_TO_OBJECT ?ws)"
    by blast+
  moreover have "raw_data (RESERVOIR ?ws) 2 = CHR ''_''"
    and "map_option (\<lambda>pos_to_object. pos_to_object (2::int)) (POS_TO_OBJECT ?ws) = Some 0"
    by (simp_all add: operand_defs)
  moreover have "raw_data (RESERVOIR (snd (RunOnDevice counter_draw 2 ?inp ?ws))) 0 = CHR ''c''"
    by (simp add: operand_defs operator_defs sample_rows.simps counter_draw_def Let_def)
  ultimately show ?thesis by simp
qed

section \<open>Rows already in the pool\<close>

text \<open>
  Claim C4. With key tracking on, a row whose key is present in the position map at the
  moment it is processed is skipped entirely: the iteration succeeds and leaves the whole
  workspace as it was (no increment of the visit count, no write to the reservoir, no
  change of the position map or of the owner array, no draw). Hence a call that feeds
  only rows whose keys are in the position map returns successfully with the same visit
  count, the same stored rows and the same indexes.
\<close>

theorem duplicate_row_skipped:
  fixes ws :: "('b, 'm, 'g) workspace"
  assumes ids: "OBJECT_ID inp = Some object_id"
    and index: "OBJECT_TO_POS_MAP ws = Some object_to_pos_map"
  shows "(\<forall>i. object_to_pos_map (raw_data object_id i) \<noteq> None \<longrightarrow>
            sample_row uniformDist numToCollect inp i ws = (None, ws))
       \<and> (check_shapes (DATA inp) (RESERVOIR ws) = None
          \<and> ndim object_id = 1 \<and> tsize object_id = tdim (DATA inp) 0
          \<and> NUM_VISITED_dims ws = [] \<and> 0 \<le> NUM_VISITED ws
          \<and> (\<forall>i. 0 \<le> i \<and> i < tdim (DATA inp) 0 \<longrightarrow> object_to_pos_map (raw_data object_id i) \<noteq> None)
          \<longrightarrow> (\<exists>ws'. RunOnDevice uniformDist numToCollect inp ws = (None, ws')
                 \<and> NUM_VISITED ws' = NUM_VISITED ws
                 \<and> raw_data (RESERVOIR ws') = raw_data (RESERVOIR ws)
                 \<and> OBJECT_TO_POS_MAP ws' = OBJECT_TO_POS_MAP ws
                 \<and> POS_TO_OBJECT ws' = POS_TO_OBJECT ws
                 \<and> RandGenerator ws' = RandGenerator ws))"
proof (intro conjI allI impI)
  fix i assume "object_to_pos_map (raw_data object_id i) \<noteq> None"
  with ids index have "already_in_pool inp ws i" by (simp add: already_in_pool_def)
  then show "sample_row uniformDist numToCollect inp i ws = (None, ws)"
    by (simp add: sample_row_def)
next
  assume a: "check_shapes (DATA inp) (RESERVOIR ws) = None
          \<and> ndim object_id = 1 \<and> tsize object_id = tdim (DATA inp) 0
          \<and> NUM_VISITED_dims ws = [] \<and> 0 \<le> NUM_VISITED ws
          \<and> (\<forall>i. 0 \<le> i \<and> i < tdim (DATA inp) 0 \<longrightarrow> object_to_pos_map (raw_data object_id i) \<noteq> None)"
  let ?n = "tdim (DATA inp) 0"
  have known: "\<forall>oid \<in> set (object_ids object_id). object_to_pos_map oid \<noteq> None"
    using a by (auto simp: object_ids_def)
  then have "filter (\<lambda>oid. object_to_pos_map oid = None) (object_ids object_id) = []"
    by (auto simp: filter_empty_conv)
  with ids index a have cnt: "countNewEntries inp w = Inr 0"
    if "OBJECT_TO_POS_MAP w = OBJECT_TO_POS_MAP ws" for w :: "('b, 'm, 'g) workspace"
    using that by (simp add: countNewEntries_def)
  have chk: "check_object_id inp ?n = None"
    using ids a by (simp add: check_object_id_def)
  show "\<exists>ws'. RunOnDevice uniformDist numToCollect inp ws = (None, ws')
                 \<and> NUM_VISITED ws' = NUM_VISITED ws
                 \<and> raw_data (RESERVOIR ws') = raw_data (RESERVOIR ws)
                 \<and> OBJECT_TO_POS_MAP ws' = OBJECT_TO_POS_MAP ws
                 \<and> POS_TO_OBJECT ws' = POS_TO_OBJECT ws
                 \<and> RandGenerator ws' = RandGenerator ws"
  proof (cases "before_loop numToCollect inp ws")
    case (Inl out)
    obtain res w where o: "out = (res, w)" by (cases out)
    from Inl o a chk have "res = None"
      by (auto simp: before_loop_def Let_def Reserve_def cnt split: if_splits)
    moreover have "NUM_VISITED w = NUM_VISITED ws"
      "raw_data (RESERVOIR w) = raw_data (RESERVOIR ws)"
      "OBJECT_TO_POS_MAP w = OBJECT_TO_POS_MAP ws" "POS_TO_OBJECT w = POS_TO_OBJECT ws"
      "RandGenerator w = RandGenerator ws"
      by (subst before_loop_Inl [OF Inl [unfolded o]], simp)+
    ultimately show ?thesis using Inl o by (simp add: RunOnDevice_def)
  next
    case (Inr t)
    obtain n k w where t: "t = (n, k, w)" by (cases t)
    note b = before_loop_Inr [OF Inr [unfolded t]]
    have w: "OBJECT_TO_POS_MAP w = OBJECT_TO_POS_MAP ws" "NUM_VISITED w = NUM_VISITED ws"
      "raw_data (RESERVOIR w) = raw_data (RESERVOIR ws)" "POS_TO_OBJECT w = POS_TO_OBJECT ws"
      "RandGenerator w = RandGenerator ws"
      by (subst b(1), simp)+
    from b(4) cnt [of ws] have k: "k = 0" by simp
    have "\<forall>j. 0 \<le> j \<and> j < n \<longrightarrow> already_in_pool inp w j"
      using a ids index w(1) b(2) by (simp add: already_in_pool_def)
    from sample_rows_all_in_pool [OF this] Inr t k w show ?thesis
      by (simp add: RunOnDevice_def sanity_check_def)
  qed
qed


theorem duplicate_row_skipped_witness:
  "OBJECT_ID (keyed_batch (1::nat) [] (CHR ''_'') [(7, CHR ''z'')])
     = Some (rows_tensor 1 [] 0 [7])
   \<and> OBJECT_TO_POS_MAP example_pool = Some [7 \<mapsto> 0]
   \<and> sample_row counter_draw 2 (keyed_batch (1::nat) [] (CHR ''_'') [(7, CHR ''z'')]) 0 example_pool
       = (None, example_pool)
   \<and> (\<exists>ws'. RunOnDevice counter_draw 2 (keyed_batch (1::nat) [] (CHR ''_'') [(7, CHR ''z'')])
              example_pool = (None, ws')
          \<and> NUM_VISITED ws' = 1 \<and> raw_data (RESERVOIR ws') 0 = CHR ''a'')"
proof -
  let ?inp = "keyed_batch (1::nat) [] (CHR ''_'') [(7, CHR ''z'')]"
  have h1: "OBJECT_ID ?inp = Some (rows_tensor 1 [] 0 [7])"
    by (simp add: operand_defs)
  have h2: "OBJECT_TO_POS_MAP example_pool = Some [7 \<mapsto> 0]"
    by (simp add: example_pool_def)
  note t = duplicate_row_skipped [OF h1 h2, of counter_draw 2]
  have k: "[7 \<mapsto> (0::int)] (raw_data (rows_tensor (1::nat) [] 0 [7::int]) 0) \<noteq> None"
    by (simp add: operand_defs)
  from t k have r: "sample_row counter_draw 2 ?inp 0 example_pool = (None, example_pool)"
    by blast
  have pre: "check_shapes (DATA ?inp) (RESERVOIR example_pool) = None
          \<and> ndim (rows_tensor (1::nat) [] (0::int) [7]) = 1
          \<and> tsize (rows_tensor (1::nat) [] (0::int) [7]) = tdim (DATA ?inp) 0
          \<and> NUM_VISITED_dims example_pool = [] \<and> 0 \<le> NUM_VISITED example_pool
          \<and> (\<forall>i. 0 \<le> i \<and> i < tdim (DATA ?inp) 0 \<longrightarrow>
                [7 \<mapsto> (0::int)] (raw_data (rows_tensor (1::nat) [] 0 [7::int]) i) \<noteq> None)"
    by (auto simp: operand_defs example_pool_def check_shapes_def ndim_def tsize_def tdim_def)
  from t pre obtain ws' where
    "RunOnDevice counter_draw 2 ?inp example_pool = (None, ws')"
    "NUM_VISITED ws' = NUM_VISITED example_pool"
    "raw_data (RESERVOIR ws') = raw_data (RESERVOIR example_pool)"
    by blast
  moreover have "NUM_VISITED example_pool = 1"
    "raw_data (RESERVOIR example_pool) 0 = CHR ''a''"
    by (simp_all add: example_pool_def operand_defs)
  ultimately show ?thesis using h1 h2 r by auto
qed

section \<open>The empty batch\<close>

text \<open>
  Claim C9. A batch with zero rows processed against a reservoir that was never
  initialised (its size is not positive) succeeds: the reservoir adopts the shape of the
  batch (zero rows, the batch's row shape) and its element type, no stored row changes,
  and the visit count and everything else in the workspace stay as they were.
\<close>

theorem empty_batch_adopts_shape:
  assumes "1 \<le> ndim (DATA inp)"
    and "tdim (DATA inp) 0 = 0"
    and "\<not> 0 < tsize (RESERVOIR ws)"
  shows "RunOnDevice uniformDist numToCollect inp ws
           = (None, ws\<lparr>RESERVOIR := (RESERVOIR ws)\<lparr>dims := dims (DATA inp),
                                                     meta := meta (DATA inp)\<rparr>\<rparr>)"
proof -
  from assms(1) have ne: "dims (DATA inp) \<noteq> []" by (auto simp: ndim_def)
  from assms CopyFrom_empty [OF ne assms(2)] show ?thesis
    by (simp add: RunOnDevice_def before_loop_def check_shapes_def Let_def Reserve_def)
qed


theorem empty_batch_adopts_shape_witness:
  "1 \<le> ndim (DATA (keyed_batch (4::nat) [3] (CHR ''_'') []))
   \<and> tdim (DATA (keyed_batch (4::nat) [3] (CHR ''_'') [])) 0 = 0
   \<and> \<not> 0 < tsize (RESERVOIR (empty_workspace (0::nat) (CHR ''_'') 0 (0::int)))
   \<and> fst (RunOnDevice counter_draw 2 (keyed_batch (4::nat) [3] (CHR ''_'') [])
            (empty_workspace (0::nat) (CHR ''_'') 0 (0::int))) = None
   \<and> dims (RESERVOIR (snd (RunOnDevice counter_draw 2 (keyed_batch (4::nat) [3] (CHR ''_'') [])
            (empty_workspace (0::nat) (CHR ''_'') 0 (0::int))))) = [0, 3]
   \<and> meta (RESERVOIR (snd (RunOnDevice counter_draw 2 (keyed_batch (4::nat) [3] (CHR ''_'') [])
            (empty_workspace (0::nat) (CHR ''_'') 0 (0::int))))) = 4
   \<and> NUM_VISITED (snd (RunOnDevice counter_draw 2 (keyed_batch (4::nat) [3] (CHR ''_'') [])
            (empty_workspace (0::nat) (CHR ''_'') 0 (0::int)))) = 0"
proof -
  let ?inp = "keyed_batch (4::nat) [3] (CHR ''_'') []"
  let ?ws = "empty_workspace (0::nat) (CHR ''_'') 0 (0::int)"
  have h1: "1 \<le> ndim (DATA ?inp)" by (simp add: operand_defs ndim_def)
  have h2: "tdim (DATA ?inp) 0 = 0" by (simp add: operand_defs tdim_def)
  have h3: "\<not> 0 < tsize (RESERVOIR ?ws)" by (simp add: operand_defs tsize_def)
  have "dims (DATA ?inp) = [0, 3]" "meta (DATA ?inp) = 4" "NUM_VISITED ?ws = 0"
    by (simp_all add: operand_defs)
  with empty_batch_adopts_shape [OF h1 h2 h3, of counter_draw 2] h1 h2 h3
  show ?thesis by simp
qed

section \<open>Validation of the visit count\<close>

text \<open>
  Claim C8 as stated fails for a batch with zero rows: the operator returns
  \<^verbatim>\<open>true\<close> at line 47, before the checks of \<^verbatim>\<open>NUM_VISITED\<close> at lines 64--67.
  Here an empty batch is accepted although the counter is not a scalar, and although it
  holds \<open>-1\<close>.
\<close>

theorem visit_count_unchecked_on_empty_batch:
  "fst (RunOnDevice counter_draw 2 (keyed_batch (1::nat) [] (CHR ''_'') [])
          ((empty_workspace (1::nat) (CHR ''_'') 0 (0::int))\<lparr>NUM_VISITED_dims := [3]\<rparr>)) = None
   \<and> fst (RunOnDevice counter_draw 2 (keyed_batch (1::nat) [] (CHR ''_'') [])
          ((empty_workspace (1::nat) (CHR ''_'') 0 (0::int))\<lparr>NUM_VISITED := -1\<rparr>)) = None"
  by (simp add: operand_defs operator_defs Let_def)


text \<open>
  Claim C8, amended. For a batch that passes the shape checks: if it has no rows the call
  succeeds without looking at the visit count; if it has rows and the count of new
  entries does not fail, the call fails with \<open>ShapeMismatch\<close> when the counter is not a
  scalar, and with \<open>ConfigurationError\<close> when it is a scalar holding a negative value,
  and in both cases no row has been processed: stored rows, visit count, indexes and
  generator are as before the call.
\<close>

theorem visit_count_validated:
  fixes ws :: "('b, 'm, 'g) workspace"
  assumes shapes: "check_shapes (DATA inp) (RESERVOIR ws) = None"
  shows "(tdim (DATA inp) 0 = 0 \<longrightarrow> fst (RunOnDevice uniformDist numToCollect inp ws) = None)
       \<and> (tdim (DATA inp) 0 \<noteq> 0 \<and> countNewEntries inp ws = Inr num_new_entries \<longrightarrow>
            (NUM_VISITED_dims ws \<noteq> [] \<longrightarrow>
               (\<exists>ws'. RunOnDevice uniformDist numToCollect inp ws = (Some NumVisitedNdim, ws')
                  \<and> error_kind NumVisitedNdim = ShapeMismatch
                  \<and> raw_data (RESERVOIR ws') = raw_data (RESERVOIR ws)
                  \<and> NUM_VISITED ws' = NUM_VISITED ws
                  \<and> OBJECT_TO_POS_MAP ws' = OBJECT_TO_POS_MAP ws
                  \<and> POS_TO_OBJECT ws' = POS_TO_OBJECT ws
                  \<and> RandGenerator ws' = RandGenerator ws))
          \<and> (NUM_VISITED_dims ws = [] \<and> NUM_VISITED ws < 0 \<longrightarrow>
               (\<exists>ws'. RunOnDevice uniformDist numToCollect inp ws = (Some NumVisitedNegative, ws')
                  \<and> error_kind NumVisitedNegative = ConfigurationError
                  \<and> raw_data (RESERVOIR ws') = raw_data (RESERVOIR ws)
                  \<and> NUM_VISITED ws' = NUM_VISITED ws
                  \<and> OBJECT_TO_POS_MAP ws' = OBJECT_TO_POS_MAP ws
                  \<and> POS_TO_OBJECT ws' = POS_TO_OBJECT ws
                  \<and> RandGenerator ws' = RandGenerator ws)))"
proof -
  have cnt: "countNewEntries inp (ws\<lparr>RESERVOIR := t\<rparr>) = countNewEntries inp ws" for t
    by (simp add: countNewEntries_def split: option.splits)
  show ?thesis
    using shapes
    by (auto simp: RunOnDevice_def before_loop_def Let_def Reserve_def Resize_def
          raw_mutable_data_def cnt)
qed


theorem visit_count_validated_witness:
  "check_shapes (DATA (keyed_batch (1::nat) [] (CHR ''_'') [(1, CHR ''a'')]))
      (RESERVOIR ((empty_workspace (1::nat) (CHR ''_'') 0 (0::int))\<lparr>NUM_VISITED := -1\<rparr>)) = None
   \<and> tdim (DATA (keyed_batch (1::nat) [] (CHR ''_'') [(1, CHR ''a'')])) 0 \<noteq> 0
   \<and> countNewEntries (keyed_batch (1::nat) [] (CHR ''_'') [(1, CHR ''a'')])
        ((empty_workspace (1::nat) (CHR ''_'') 0 (0::int))\<lparr>NUM_VISITED := -1\<rparr>) = Inr 1
   \<and> fst (RunOnDevice counter_draw 2 (keyed_batch (1::nat) [] (CHR ''_'') [(1, CHR ''a'')])
        ((empty_workspace (1::nat) (CHR ''_'') 0 (0::int))\<lparr>NUM_VISITED := -1\<rparr>))
       = Some NumVisitedNegative
   \<and> NUM_VISITED (snd (RunOnDevice counter_draw 2
        (keyed_batch (1::nat) [] (CHR ''_'') [(1, CHR ''a'')])
        ((empty_workspace (1::nat) (CHR ''_'') 0 (0::int))\<lparr>NUM_VISITED := -1\<rparr>))) = -1"
proof -
  let ?inp = "keyed_batch (1::nat) [] (CHR ''_'') [(1, CHR ''a'')]"
  let ?ws = "(empty_workspace (1::nat) (CHR ''_'') 0 (0::int))\<lparr>NUM_VISITED := -1\<rparr>"
  have h1: "check_shapes (DATA ?inp) (RESERVOIR ?ws) = None"
    by (simp add: operand_defs check_shapes_def ndim_def tsize_def)
  have h2: "tdim (DATA ?inp) 0 \<noteq> 0" by (simp add: operand_defs tdim_def)
  have h3: "countNewEntries ?inp ?ws = Inr 1"
    by (simp add: operand_defs countNewEntries_def object_ids_def ndim_def tsize_def)
  have h4: "NUM_VISITED_dims ?ws = [] \<and> NUM_VISITED ?ws < 0" by (simp add: operand_defs)
  from visit_count_validated [OF h1, of counter_draw 2 1] h2 h3 h4
  obtain ws' where "RunOnDevice counter_draw 2 ?inp ?ws = (Some NumVisitedNegative, ws')"
    "NUM_VISITED ws' = NUM_VISITED ?ws"
    by blast
  with h1 h2 h3 show ?thesis by simp
qed

section \<open>Order of the validation\<close>

text \<open>
  Claim C7 as stated fails: the length of the id vector is checked at line 87, after
  \<^verbatim>\<open>countNewEntries\<close> (line 50) and after the reservoir has been resized (line 55).
  Here a batch of one row comes with two ids; the call fails with \<open>SizeMismatch\<close> and
  leaves the reservoir, empty before the call, with two rows.
\<close>

theorem size_mismatch_after_resize:
  "fst (RunOnDevice counter_draw 2
         \<lparr>DATA = rows_tensor (1::nat) [] (CHR ''_'') [CHR ''a''],
          OBJECT_ID = Some (rows_tensor 1 [] 0 [5, 6])\<rparr>
         (empty_workspace 1 (CHR ''_'') 0 0)) = Some ObjectIdSize
   \<and> error_kind ObjectIdSize = SizeMismatch
   \<and> dims (RESERVOIR (empty_workspace (1::nat) (CHR ''_'') 0 (0::int))) = [0]
   \<and> dims (RESERVOIR (snd (RunOnDevice counter_draw 2
         \<lparr>DATA = rows_tensor (1::nat) [] (CHR ''_'') [CHR ''a''],
          OBJECT_ID = Some (rows_tensor 1 [] 0 [5, 6])\<rparr>
         (empty_workspace 1 (CHR ''_'') 0 0)))) = [2]"
  by (simp add: operand_defs operator_defs Let_def)


text \<open>
  Claim C7, amended. The rank of the batch and, once the reservoir holds elements, its rank
  and row shape against the reservoir's are validated first: a batch that fails one of
  these checks is rejected with the workspace untouched. For a non-empty batch of accepted
  shape, an id vector whose rank is not 1 is rejected with the workspace untouched, and an
  id vector whose length differs from the number of rows is rejected with \<open>SizeMismatch\<close>
  (the position map being supplied and the visit count a non-negative scalar). That check
  comes after the new entries have been counted and after the occupied region has been
  resized, and before any row is processed: the stored rows, the visit count, both indexes
  and the generator are as before the call, while the occupied size is already
  \<open>min numToCollect (occupiedBefore + min count numToCollect)\<close> (when the reservoir was not
  yet full). For an empty batch of accepted shape the id vector is not checked at all: the
  call succeeds and the visit count is unchanged.
\<close>

theorem validation_order:
  fixes ws :: "('b, 'm, 'g) workspace"
  shows "(ndim (DATA inp) < 1 \<longrightarrow>
            RunOnDevice uniformDist numToCollect inp ws = (Some InputNdim, ws))
       \<and> (1 \<le> ndim (DATA inp) \<and> 0 < tsize (RESERVOIR ws)
            \<and> ndim (RESERVOIR ws) \<noteq> ndim (DATA inp) \<longrightarrow>
            RunOnDevice uniformDist numToCollect inp ws = (Some ReservoirNdim, ws))
       \<and> (1 \<le> ndim (DATA inp) \<and> 0 < tsize (RESERVOIR ws)
            \<and> ndim (RESERVOIR ws) = ndim (DATA inp)
            \<and> (\<exists>i. 1 \<le> i \<and> i < length (dims (DATA inp))
                   \<and> tdim (RESERVOIR ws) i \<noteq> tdim (DATA inp) i) \<longrightarrow>
            RunOnDevice uniformDist numToCollect inp ws = (Some ReservoirDim, ws))
       \<and> (check_shapes (DATA inp) (RESERVOIR ws) = None \<and> tdim (DATA inp) 0 \<noteq> 0
            \<and> OBJECT_ID inp = Some object_id \<and> ndim object_id \<noteq> 1 \<longrightarrow>
            RunOnDevice uniformDist numToCollect inp ws = (Some ObjectIdNdim, ws))
       \<and> (check_shapes (DATA inp) (RESERVOIR ws) = None \<and> tdim (DATA inp) 0 \<noteq> 0
            \<and> OBJECT_ID inp = Some object_id \<and> ndim object_id = 1
            \<and> OBJECT_TO_POS_MAP ws = Some object_to_pos_map
            \<and> NUM_VISITED_dims ws = [] \<and> 0 \<le> NUM_VISITED ws
            \<and> tsize object_id \<noteq> tdim (DATA inp) 0 \<longrightarrow>
            (\<exists>ws'. RunOnDevice uniformDist numToCollect inp ws = (Some ObjectIdSize, ws')
             \<and> raw_data (RESERVOIR ws') = raw_data (RESERVOIR ws)
             \<and> NUM_VISITED ws' = NUM_VISITED ws
             \<and> OBJECT_TO_POS_MAP ws' = OBJECT_TO_POS_MAP ws
             \<and> POS_TO_OBJECT ws' = POS_TO_OBJECT ws
             \<and> RandGenerator ws' = RandGenerator ws
             \<and> dims (RESERVOIR ws') =
                 (let num_new_entries =
                        int (length (filter (\<lambda>oid. object_to_pos_map oid = None)
                                            (object_ids object_id)));
                      output_batch_size =
                        (if 0 < tsize (RESERVOIR ws) then tdim (RESERVOIR ws) 0 else 0)
                  in if output_batch_size < numToCollect
                     then (dims (DATA inp))
                            [0 := min numToCollect
                                    (output_batch_size + min num_new_entries numToCollect)]
                     else dims (RESERVOIR ws))))
       \<and> (check_shapes (DATA inp) (RESERVOIR ws) = None \<and> tdim (DATA inp) 0 = 0 \<longrightarrow>
            fst (RunOnDevice uniformDist numToCollect inp ws) = None
            \<and> NUM_VISITED (snd (RunOnDevice uniformDist numToCollect inp ws)) = NUM_VISITED ws)"
proof (intro conjI impI)
  assume "ndim (DATA inp) < 1"
  then show "RunOnDevice uniformDist numToCollect inp ws = (Some InputNdim, ws)"
    by (simp add: RunOnDevice_def before_loop_def check_shapes_def Let_def)
next
  assume "1 \<le> ndim (DATA inp) \<and> 0 < tsize (RESERVOIR ws)
            \<and> ndim (RESERVOIR ws) \<noteq> ndim (DATA inp)"
  then show "RunOnDevice uniformDist numToCollect inp ws = (Some ReservoirNdim, ws)"
    by (simp add: RunOnDevice_def before_loop_def check_shapes_def Let_def)
next
  assume a: "1 \<le> ndim (DATA inp) \<and> 0 < tsize (RESERVOIR ws)
            \<and> ndim (RESERVOIR ws) = ndim (DATA inp)
            \<and> (\<exists>i. 1 \<le> i \<and> i < length (dims (DATA inp))
                   \<and> tdim (RESERVOIR ws) i \<noteq> tdim (DATA inp) i)"
  then have "list_ex (\<lambda>i. tdim (RESERVOIR ws) i \<noteq> tdim (DATA inp) i)
               [1..<length (dims (DATA inp))]"
    by (auto simp: list_ex_iff)
  with a have "check_shapes (DATA inp) (RESERVOIR ws) = Some ReservoirDim"
    by (simp add: check_shapes_def)
  then show "RunOnDevice uniformDist numToCollect inp ws = (Some ReservoirDim, ws)"
    by (simp add: RunOnDevice_def before_loop_def Let_def)
next
  assume a: "check_shapes (DATA inp) (RESERVOIR ws) = None \<and> tdim (DATA inp) 0 \<noteq> 0
            \<and> OBJECT_ID inp = Some object_id \<and> ndim object_id \<noteq> 1"
  then have "countNewEntries inp (ws\<lparr>RESERVOIR := RESERVOIR ws\<rparr>) = Inl ObjectIdNdim"
    by (simp add: countNewEntries_def)
  with a show "RunOnDevice uniformDist numToCollect inp ws = (Some ObjectIdNdim, ws)"
    by (simp add: RunOnDevice_def before_loop_def Let_def Reserve_def)
next
  assume a: "check_shapes (DATA inp) (RESERVOIR ws) = None \<and> tdim (DATA inp) 0 \<noteq> 0
            \<and> OBJECT_ID inp = Some object_id \<and> ndim object_id = 1
            \<and> OBJECT_TO_POS_MAP ws = Some object_to_pos_map
            \<and> NUM_VISITED_dims ws = [] \<and> 0 \<le> NUM_VISITED ws
            \<and> tsize object_id \<noteq> tdim (DATA inp) 0"
  let ?k = "int (length (filter (\<lambda>oid. object_to_pos_map oid = None) (object_ids object_id)))"
  from a have c: "countNewEntries inp (ws\<lparr>RESERVOIR := RESERVOIR ws\<rparr>) = Inr ?k"
    by (simp add: countNewEntries_def)
  from a have o: "check_object_id inp (tdim (DATA inp) 0) = Some ObjectIdSize"
    by (simp add: check_object_id_def)
  from a c o
  show "\<exists>ws'. RunOnDevice uniformDist numToCollect inp ws = (Some ObjectIdSize, ws')
             \<and> raw_data (RESERVOIR ws') = raw_data (RESERVOIR ws)
             \<and> NUM_VISITED ws' = NUM_VISITED ws
             \<and> OBJECT_TO_POS_MAP ws' = OBJECT_TO_POS_MAP ws
             \<and> POS_TO_OBJECT ws' = POS_TO_OBJECT ws
             \<and> RandGenerator ws' = RandGenerator ws
             \<and> dims (RESERVOIR ws') =
                 (let num_new_entries =
                        int (length (filter (\<lambda>oid. object_to_pos_map oid = None)
                                            (object_ids object_id)));
                      output_batch_size =
                        (if 0 < tsize (RESERVOIR ws) then tdim (RESERVOIR ws) 0 else 0)
                  in if output_batch_size < numToCollect
                     then (dims (DATA inp))
                            [0 := min numToCollect
                                    (output_batch_size + min num_new_entries numToCollect)]
                     else dims (RESERVOIR ws))"
    by (simp add: RunOnDevice_def before_loop_def Let_def Reserve_def Resize_def
        raw_mutable_data_def)
next
  assume a: "check_shapes (DATA inp) (RESERVOIR ws) = None \<and> tdim (DATA inp) 0 = 0"
  then show "fst (RunOnDevice uniformDist numToCollect inp ws) = None"
    by (simp add: RunOnDevice_def before_loop_def Let_def)
  from a show "NUM_VISITED (snd (RunOnDevice uniformDist numToCollect inp ws)) = NUM_VISITED ws"
    by (simp add: RunOnDevice_def before_loop_def Let_def)
qed

text \<open>
  Instances, with capacity 2 and the pool holding one row of shape \<open>[]\<close>: a batch of rank
  0; a batch whose rank differs from the reservoir's; a batch whose rows have another
  shape than those of a reservoir of shape \<open>[2]\<close>; one row with an id tensor of rank 2;
  one row with two ids, which leaves the occupied size at 2; no row with two ids.
\<close>

theorem validation_order_witness:
  "ndim (DATA \<lparr>DATA = \<lparr>dims = [], meta = (1::nat), raw_data = (\<lambda>i. CHR ''b'')\<rparr>,
               OBJECT_ID = None\<rparr>) < 1
   \<and> RunOnDevice counter_draw 2
        \<lparr>DATA = \<lparr>dims = [], meta = (1::nat), raw_data = (\<lambda>i. CHR ''b'')\<rparr>, OBJECT_ID = None\<rparr>
        example_pool = (Some InputNdim, example_pool)
   \<and> ndim (RESERVOIR example_pool) \<noteq> ndim (rows_tensor (1::nat) [3] (CHR ''_'') [CHR ''b''])
   \<and> RunOnDevice counter_draw 2
        \<lparr>DATA = rows_tensor (1::nat) [3] (CHR ''_'') [CHR ''b''], OBJECT_ID = None\<rparr>
        example_pool = (Some ReservoirNdim, example_pool)
   \<and> tdim (rows_tensor (1::nat) [2] (CHR ''_'') [CHR ''a'']) 1
        \<noteq> tdim (rows_tensor (1::nat) [3] (CHR ''_'') [CHR ''b'']) 1
   \<and> RunOnDevice counter_draw 2
        \<lparr>DATA = rows_tensor (1::nat) [3] (CHR ''_'') [CHR ''b''], OBJECT_ID = None\<rparr>
        (example_pool\<lparr>RESERVOIR := rows_tensor 1 [2] (CHR ''_'') [CHR ''a'']\<rparr>)
        = (Some ReservoirDim, example_pool\<lparr>RESERVOIR := rows_tensor 1 [2] (CHR ''_'') [CHR ''a'']\<rparr>)
   \<and> ndim (rows_tensor (1::nat) [1] 0 [5::int]) \<noteq> 1
   \<and> RunOnDevice counter_draw 2
        \<lparr>DATA = rows_tensor (1::nat) [] (CHR ''_'') [CHR ''b''],
         OBJECT_ID = Some (rows_tensor 1 [1] 0 [5::int])\<rparr>
        example_pool = (Some ObjectIdNdim, example_pool)
   \<and> tsize (rows_tensor (1::nat) [] 0 [5::int, 6])
        \<noteq> tdim (rows_tensor (1::nat) [] (CHR ''_'') [CHR ''b'']) 0
   \<and> (\<exists>ws'. RunOnDevice counter_draw 2
               \<lparr>DATA = rows_tensor (1::nat) [] (CHR ''_'') [CHR ''b''],
                OBJECT_ID = Some (rows_tensor 1 [] 0 [5::int, 6])\<rparr>
               example_pool = (Some ObjectIdSize, ws')
          \<and> raw_data (RESERVOIR ws') = raw_data (RESERVOIR example_pool)
          \<and> NUM_VISITED ws' = 1
          \<and> dims (RESERVOIR ws') = [2])
   \<and> tdim (rows_tensor (1::nat) [] (CHR ''_'') []) 0 = 0
   \<and> fst (RunOnDevice counter_draw 2
        \<lparr>DATA = rows_tensor (1::nat) [] (CHR ''_'') [],
         OBJECT_ID = Some (rows_tensor 1 [] 0 [5::int, 6])\<rparr>
        example_pool) = None"
proof -
  let ?scalar = "\<lparr>DATA = \<lparr>dims = [], meta = (1::nat), raw_data = (\<lambda>i. CHR ''b'')\<rparr>,
                  OBJECT_ID = None\<rparr>"
  let ?wide = "\<lparr>DATA = rows_tensor (1::nat) [3] (CHR ''_'') [CHR ''b''], OBJECT_ID = None\<rparr>"
  let ?pool2 = "example_pool\<lparr>RESERVOIR := rows_tensor 1 [2] (CHR ''_'') [CHR ''a'']\<rparr>"
  let ?rank2 = "\<lparr>DATA = rows_tensor (1::nat) [] (CHR ''_'') [CHR ''b''],
                 OBJECT_ID = Some (rows_tensor 1 [1] 0 [5::int])\<rparr>"
  let ?long = "\<lparr>DATA = rows_tensor (1::nat) [] (CHR ''_'') [CHR ''b''],
                OBJECT_ID = Some (rows_tensor 1 [] 0 [5::int, 6])\<rparr>"
  let ?none = "\<lparr>DATA = rows_tensor (1::nat) [] (CHR ''_'') [],
                OBJECT_ID = Some (rows_tensor 1 [] 0 [5::int, 6])\<rparr>"
  have h1: "ndim (DATA ?scalar) < 1" by (simp add: ndim_def)
  have c1: "RunOnDevice counter_draw 2 ?scalar example_pool = (Some InputNdim, example_pool)"
    using validation_order [where inp = ?scalar and ws = example_pool
        and uniformDist = counter_draw and numToCollect = 2, THEN conjunct1] h1
    by simp
  have h2: "1 \<le> ndim (DATA ?wide) \<and> 0 < tsize (RESERVOIR example_pool)
            \<and> ndim (RESERVOIR example_pool) \<noteq> ndim (DATA ?wide)"
    by (simp add: ndim_def tsize_def example_pool_def rows_tensor_def)
  have c2: "RunOnDevice counter_draw 2 ?wide example_pool = (Some ReservoirNdim, example_pool)"
    using validation_order [where inp = ?wide and ws = example_pool
        and uniformDist = counter_draw and numToCollect = 2,
        THEN conjunct2, THEN conjunct1] h2
    by simp
  have h3: "1 \<le> ndim (DATA ?wide) \<and> 0 < tsize (RESERVOIR ?pool2)
            \<and> ndim (RESERVOIR ?pool2) = ndim (DATA ?wide)
            \<and> (\<exists>i. 1 \<le> i \<and> i < length (dims (DATA ?wide))
                   \<and> tdim (RESERVOIR ?pool2) i \<noteq> tdim (DATA ?wide) i)"
    by (simp add: ndim_def tsize_def tdim_def rows_tensor_def) (rule exI [of _ 1], simp)
  have c3: "RunOnDevice counter_draw 2 ?wide ?pool2 = (Some ReservoirDim, ?pool2)"
    using validation_order [where inp = ?wide and ws = ?pool2
        and uniformDist = counter_draw and numToCollect = 2,
        THEN conjunct2, THEN conjunct2, THEN conjunct1] h3
    by blast
  have h4: "check_shapes (DATA ?rank2) (RESERVOIR example_pool) = None
            \<and> tdim (DATA ?rank2) 0 \<noteq> 0
            \<and> OBJECT_ID ?rank2 = Some (rows_tensor 1 [1] 0 [5::int])
            \<and> ndim (rows_tensor (1::nat) [1] 0 [5::int]) \<noteq> 1"
    by (simp add: check_shapes_def ndim_def tsize_def tdim_def example_pool_def rows_tensor_def)
  have c4: "RunOnDevice counter_draw 2 ?rank2 example_pool = (Some ObjectIdNdim, example_pool)"
    using validation_order [where inp = ?rank2 and ws = example_pool
        and uniformDist = counter_draw and numToCollect = 2
        and object_id = "rows_tensor 1 [1] 0 [5::int]",
        THEN conjunct2, THEN conjunct2, THEN conjunct2, THEN conjunct1] h4
    by blast
  have h5: "check_shapes (DATA ?long) (RESERVOIR example_pool) = None
            \<and> tdim (DATA ?long) 0 \<noteq> 0
            \<and> OBJECT_ID ?long = Some (rows_tensor 1 [] 0 [5::int, 6])
            \<and> ndim (rows_tensor (1::nat) [] 0 [5::int, 6]) = 1
            \<and> OBJECT_TO_POS_MAP example_pool = Some [7 \<mapsto> 0]
            \<and> NUM_VISITED_dims example_pool = [] \<and> 0 \<le> NUM_VISITED example_pool
            \<and> tsize (rows_tensor (1::nat) [] 0 [5::int, 6]) \<noteq> tdim (DATA ?long) 0"
    by (simp add: check_shapes_def ndim_def tsize_def tdim_def example_pool_def rows_tensor_def)
  have k: "int (length (filter (\<lambda>oid. [7 \<mapsto> (0::int)] oid = None)
                               (object_ids (rows_tensor (1::nat) [] 0 [5::int, 6])))) = 2"
    by (simp add: object_ids_def tsize_def rows_tensor_def upt_rec [of 0] upt_rec [of 1])
  have b: "(if 0 < tsize (RESERVOIR example_pool) then tdim (RESERVOIR example_pool) 0 else 0) = 1"
    by (simp add: tsize_def tdim_def example_pool_def rows_tensor_def)
  have c5: "\<exists>ws'. RunOnDevice counter_draw 2 ?long example_pool = (Some ObjectIdSize, ws')
          \<and> raw_data (RESERVOIR ws') = raw_data (RESERVOIR example_pool)
          \<and> NUM_VISITED ws' = 1
          \<and> dims (RESERVOIR ws') = [2]"
    using validation_order [where inp = ?long and ws = example_pool
        and uniformDist = counter_draw and numToCollect = 2
        and object_id = "rows_tensor 1 [] 0 [5::int, 6]" and object_to_pos_map = "[7 \<mapsto> 0]",
        THEN conjunct2, THEN conjunct2, THEN conjunct2, THEN conjunct2, THEN conjunct1,
        THEN mp, OF h5]
    unfolding Let_def k b
    by (auto simp: example_pool_def rows_tensor_def)
  have h6: "check_shapes (DATA ?none) (RESERVOIR example_pool) = None
            \<and> tdim (DATA ?none) 0 = 0"
    by (simp add: check_shapes_def ndim_def tsize_def tdim_def example_pool_def rows_tensor_def)
  have c6: "fst (RunOnDevice counter_draw 2 ?none example_pool) = None"
    using validation_order [where inp = ?none and ws = example_pool
        and uniformDist = counter_draw and numToCollect = 2,
        THEN conjunct2, THEN conjunct2, THEN conjunct2, THEN conjunct2, THEN conjunct2] h6
    by blast
  have g2: "ndim (RESERVOIR example_pool) \<noteq> ndim (rows_tensor (1::nat) [3] (CHR ''_'') [CHR ''b''])"
    using h2 by simp
  have g3: "tdim (rows_tensor (1::nat) [2] (CHR ''_'') [CHR ''a'']) 1
        \<noteq> tdim (rows_tensor (1::nat) [3] (CHR ''_'') [CHR ''b'']) 1"
    by (simp add: tdim_def rows_tensor_def)
  have g4: "ndim (rows_tensor (1::nat) [1] 0 [5::int]) \<noteq> 1"
    using h4 by simp
  have g5: "tsize (rows_tensor (1::nat) [] 0 [5::int, 6])
        \<noteq> tdim (rows_tensor (1::nat) [] (CHR ''_'') [CHR ''b'']) 0"
    using h5 by simp
  have g6: "tdim (rows_tensor (1::nat) [] (CHR ''_'') []) 0 = 0"
    using h6 by simp
  show ?thesis
    by (intro conjI) (fact h1 c1 g2 c2 g3 c3 g4 c4 g5 c5 g6 c6)+
qed

section \<open>The end-of-batch check\<close>

text \<open>
  Claim C2 at a batch that holds the same unseen key twice (capacity 2, empty state, ids
  \<open>[7, 7]\<close>). \<^verbatim>\<open>countNewEntries\<close> counts both rows, since key 7 is absent from the map
  before the batch. The loop appends the first row and binds key 7, then skips the second
  row, whose key is now in the map. The counter ends at 1, not at \<open>0 + 2\<close>, and the check
  at line 135 fails, whatever the generator.
\<close>

theorem repeated_new_key_fails_sanity_check:
  "countNewEntries (keyed_batch (1::nat) [] (CHR ''_'') [(7, CHR ''a''), (7, CHR ''b'')])
      (empty_workspace (1::nat) (CHR ''_'') 0 (g::'g)) = Inr 2
   \<and> NUM_VISITED (empty_workspace (1::nat) (CHR ''_'') 0 g) = 0
   \<and> fst (RunOnDevice uniformDist 2
            (keyed_batch (1::nat) [] (CHR ''_'') [(7, CHR ''a''), (7, CHR ''b'')])
            (empty_workspace (1::nat) (CHR ''_'') 0 g)) = Some SanityCheck
   \<and> NUM_VISITED (snd (RunOnDevice uniformDist 2
            (keyed_batch (1::nat) [] (CHR ''_'') [(7, CHR ''a''), (7, CHR ''b'')])
            (empty_workspace (1::nat) (CHR ''_'') 0 g))) = 1"
  by (simp add: operand_defs operator_defs sample_rows.simps Let_def)

section \<open>The two indexes\<close>

text \<open>
  Claim C3 at object id 0 (capacity 2, empty state, owner storage filled with zeros, ids
  \<open>[0, 1]\<close>). The first row is appended to slot 0 and bound to key 0. The second row is
  appended to slot 1: the code reads the owner of slot 1, which was never assigned and is
  0, and erases key 0 from the map. The call succeeds; afterwards slot 0 is occupied and
  owned by key 0, but the position map has no entry for key 0.
\<close>

theorem unassigned_owner_erases_key:
  "fst (RunOnDevice uniformDist 2
         (keyed_batch (1::nat) [] (CHR ''_'') [(0, CHR ''a''), (1, CHR ''b'')])
         (empty_workspace (1::nat) (CHR ''_'') 0 (g::'g))) = None
   \<and> dims (RESERVOIR (snd (RunOnDevice uniformDist 2
         (keyed_batch (1::nat) [] (CHR ''_'') [(0, CHR ''a''), (1, CHR ''b'')])
         (empty_workspace (1::nat) (CHR ''_'') 0 g)))) = [2]
   \<and> map_option (\<lambda>pos_to_object. pos_to_object 0) (POS_TO_OBJECT (snd (RunOnDevice uniformDist 2
         (keyed_batch (1::nat) [] (CHR ''_'') [(0, CHR ''a''), (1, CHR ''b'')])
         (empty_workspace (1::nat) (CHR ''_'') 0 g)))) = Some 0
   \<and> map_option (\<lambda>object_to_pos_map. object_to_pos_map 0) (OBJECT_TO_POS_MAP (snd (RunOnDevice uniformDist 2
         (keyed_batch (1::nat) [] (CHR ''_'') [(0, CHR ''a''), (1, CHR ''b'')])
         (empty_workspace (1::nat) (CHR ''_'') 0 g)))) = Some None"
  by (simp add: operand_defs operator_defs sample_rows.simps Let_def)

section \<open>Filling the reservoir\<close>

text \<open>
  Claim C5 as stated fails for rows without elements fed over several calls. The
  operator takes a reservoir of size 0 for one that was never initialised (line 28), and
  a reservoir of rows of shape \<open>[0]\<close> has size 0 however many rows it has. Here capacity
  is 2 and three such rows with distinct keys arrive in three calls: every call sets the
  occupied size to \<open>min 2 (0 + 1)\<close>, so it is 1 at the end, while the visit count is 3.
\<close>

theorem zero_element_rows_occupied_size:
  "fst (feed counter_draw 2
          [keyed_batch (1::nat) [0] '''' [(1, '''')], keyed_batch 1 [0] '''' [(2, '''')],
           keyed_batch 1 [0] '''' [(3, '''')]]
          (empty_workspace 1 '''' 0 0)) = None
   \<and> NUM_VISITED (snd (feed counter_draw 2
          [keyed_batch (1::nat) [0] '''' [(1, '''')], keyed_batch 1 [0] '''' [(2, '''')],
           keyed_batch 1 [0] '''' [(3, '''')]]
          (empty_workspace 1 '''' 0 0))) = 3
   \<and> tdim (RESERVOIR (snd (feed counter_draw 2
          [keyed_batch (1::nat) [0] '''' [(1, '''')], keyed_batch 1 [0] '''' [(2, '''')],
           keyed_batch 1 [0] '''' [(3, '''')]]
          (empty_workspace 1 '''' 0 0)))) 0 = 1"
  by (simp add: operand_defs operator_defs sample_rows.simps counter_draw_def Let_def)

text \<open>
  Claim C5, amended. Start from the empty state (a reservoir of no positive size, a
  scalar counter holding 0, an empty map) with capacity \<open>C > 0\<close>, and feed rows with
  pairwise distinct keys, split into batches in any way. Every call succeeds and the
  visit count ends at the number of rows fed. If at most \<open>C\<close> rows were fed (in
  particular exactly \<open>C\<close>), slot \<open>j\<close> holds the block of the \<open>j\<close>-th row. If the rows have
  at least one element, the occupied size ends at the minimum of \<open>C\<close> and the number of
  rows: \<open>C\<close> after \<open>C + k\<close> rows.
\<close>

theorem distinct_rows_fill_reservoir:
  fixes ws :: "('b, 'm, 'g) workspace"
  assumes cap: "0 < numToCollect"
    and empty: "\<not> 0 < tsize (RESERVOIR ws)" "NUM_VISITED_dims ws = []" "NUM_VISITED ws = 0"
      "OBJECT_TO_POS_MAP ws = Some Map.empty" "POS_TO_OBJECT ws = Some owners"
    and keys: "distinct (map fst (concat kxss))"
  shows "\<exists>ws'. feed uniformDist numToCollect (map (keyed_batch m shape dflt) kxss) ws = (None, ws')
     \<and> NUM_VISITED ws' = int (length (concat kxss))
     \<and> (int (length (concat kxss)) \<le> numToCollect \<longrightarrow>
          (\<forall>j < length (concat kxss). raw_data (RESERVOIR ws') (int j) = snd (concat kxss ! j)))
     \<and> (0 < prod_list shape \<and> concat kxss \<noteq> [] \<longrightarrow>
          tdim (RESERVOIR ws') 0 = min numToCollect (int (length (concat kxss))))"
proof -
  let ?kxs = "concat kxss"
  have start: "between_calls numToCollect shape ?kxs 0 ws"
    by (rule between_calls_empty [OF empty])
  from feed_between_calls [OF start cap keys, of kxss uniformDist m dflt]
  obtain ws' where run: "feed uniformDist numToCollect (map (keyed_batch m shape dflt) kxss) ws
        = (None, ws')"
    and inv: "between_calls numToCollect shape ?kxs (length ?kxs) ws'"
    by auto
  from inv have smp: "sampled numToCollect ?kxs (length ?kxs) ws'"
    and shp: "if 0 < prod_list shape \<and> 0 < length ?kxs
      then dims (RESERVOIR ws') = min numToCollect (int (length ?kxs)) # shape
      else \<not> 0 < tsize (RESERVOIR ws')"
    by (simp_all add: between_calls_def)
  from smp have v: "NUM_VISITED ws' = int (length ?kxs)" by (simp add: sampled_def)
  from smp have ord: "int (length ?kxs) \<le> numToCollect \<longrightarrow>
      (\<forall>j < length ?kxs. raw_data (RESERVOIR ws') (int j) = snd (?kxs ! j))"
    unfolding sampled_def by (metis snd_conv)
  from shp have occ: "0 < prod_list shape \<and> ?kxs \<noteq> [] \<longrightarrow>
      tdim (RESERVOIR ws') 0 = min numToCollect (int (length ?kxs))"
    by (auto simp: tdim_def)
  from run v ord occ show ?thesis by blast
qed

theorem distinct_rows_fill_reservoir_witness:
  "(0::int) < 2 \<and> distinct (map fst (concat [[(1::int, CHR ''a'')], [(2, CHR ''b'')]]))
   \<and> (\<exists>ws'. feed counter_draw 2
               (map (keyed_batch (1::nat) [] (CHR ''_'')) [[(1, CHR ''a'')], [(2, CHR ''b'')]])
               (empty_workspace 1 (CHR ''_'') 0 0) = (None, ws')
          \<and> NUM_VISITED ws' = 2
          \<and> raw_data (RESERVOIR ws') 0 = CHR ''a'' \<and> raw_data (RESERVOIR ws') 1 = CHR ''b''
          \<and> tdim (RESERVOIR ws') 0 = 2)"
proof -
  let ?ws = "empty_workspace (1::nat) (CHR ''_'') 0 (0::int)"
  let ?kxss = "[[(1::int, CHR ''a'')], [(2, CHR ''b'')]]"
  have e: "\<not> 0 < tsize (RESERVOIR ?ws)" "NUM_VISITED_dims ?ws = []" "NUM_VISITED ?ws = 0"
    "OBJECT_TO_POS_MAP ?ws = Some Map.empty" "POS_TO_OBJECT ?ws = Some (\<lambda>pos. 0)"
    by (simp_all add: operand_defs tsize_def)
  have c: "(0::int) < 2" by simp
  have d: "distinct (map fst (concat ?kxss))" by simp
  from distinct_rows_fill_reservoir [OF c e d, of counter_draw 1 "[]" "CHR ''_''"]
  obtain ws' where r: "feed counter_draw 2 (map (keyed_batch (1::nat) [] (CHR ''_'')) ?kxss) ?ws
        = (None, ws')"
    and v: "NUM_VISITED ws' = int (length (concat ?kxss))"
    and o: "int (length (concat ?kxss)) \<le> 2 \<longrightarrow>
          (\<forall>j < length (concat ?kxss). raw_data (RESERVOIR ws') (int j) = snd (concat ?kxss ! j))"
    and s: "0 < prod_list ([]::int list) \<and> concat ?kxss \<noteq> [] \<longrightarrow>
          tdim (RESERVOIR ws') 0 = min 2 (int (length (concat ?kxss)))"
    by blast
  from o have a: "raw_data (RESERVOIR ws') (int j) = snd (concat ?kxss ! j)" if "j < 2" for j
    using that by simp
  from a [of 0] a [of 1]
  have "raw_data (RESERVOIR ws') 0 = CHR ''a''" "raw_data (RESERVOIR ws') 1 = CHR ''b''"
    by simp_all
  moreover from v have "NUM_VISITED ws' = 2" by simp
  moreover from s have "tdim (RESERVOIR ws') 0 = 2" by simp
  ultimately show ?thesis using r c d by blast
qed

section \<open>The sampling guarantee\<close>

text \<open>
  Claim C6 as stated fails for rows that repeat a key no longer (or never) held by the
  reservoir: the loop skips a row only when its key is in the position map at that
  moment (line 93), so such a row is sampled as a new row. Here capacity is 2; a first
  batch brings keys 1, 2, 3 and a second batch key 3 again. When the first row of key 3
  was discarded (one draw in three), the second one is processed with visit count 3 and
  may evict key 1. The row of key 1 ends in the reservoir with probability \<open>7/12\<close>, not
  \<open>2/3\<close>, and the expected visit count is \<open>10/3\<close>, not 3.
\<close>

theorem repeated_key_changes_inclusion_probability:
  "feed_expect 2
     [keyed_batch (1::nat) [] (CHR ''_'') [(1, CHR ''a''), (2, CHR ''b''), (3, CHR ''c'')],
      keyed_batch 1 [] (CHR ''_'') [(3, CHR ''d'')]]
     (empty_workspace 1 (CHR ''_'') 0 ()) (present 2 (1, CHR ''a'')) = 7 / 12
   \<and> feed_expect 2
     [keyed_batch (1::nat) [] (CHR ''_'') [(1, CHR ''a''), (2, CHR ''b''), (3, CHR ''c'')],
      keyed_batch 1 [] (CHR ''_'') [(3, CHR ''d'')]]
     (empty_workspace 1 (CHR ''_'') 0 ()) (\<lambda>out. of_int (NUM_VISITED (snd out))) = 10 / 3"
  by code_simp

text \<open>
  Claim C6, amended. Start from the empty state with capacity \<open>C > 0\<close> and feed \<open>n \<ge> C\<close>
  rows with pairwise distinct keys, split into batches in any way, every draw being
  uniform on its interval. Then each of the rows, wherever it stands in the stream, is in
  the reservoir at the end with probability exactly \<open>C / n\<close>. A row whose key is in the
  position map when it is processed takes no draw and leaves the state as it is, so it
  changes neither the sample nor the visit count.
\<close>

theorem reservoir_inclusion_probability:
  fixes ws :: "('b, 'm, 'g) workspace"
  assumes cap: "0 < numToCollect"
    and enough: "numToCollect \<le> int (length (concat kxss))"
    and empty: "\<not> 0 < tsize (RESERVOIR ws)" "NUM_VISITED_dims ws = []" "NUM_VISITED ws = 0"
      "OBJECT_TO_POS_MAP ws = Some Map.empty" "POS_TO_OBJECT ws = Some owners"
    and keys: "distinct (map fst (concat kxss))"
    and row: "kx \<in> set (concat kxss)"
  shows "feed_expect numToCollect (map (keyed_batch m shape dflt) kxss) ws (present numToCollect kx)
           = of_int numToCollect / of_nat (length (concat kxss))
       \<and> (\<forall>inp (w :: ('b, 'm, 'g) workspace) i g.
             already_in_pool inp w i \<longrightarrow> sample_row_expect numToCollect inp i w g = g (None, w))"
proof
  let ?kxs = "concat kxss"
  have start: "between_calls numToCollect shape ?kxs 0 ws"
    by (rule between_calls_empty [OF empty])
  have "feed_expect numToCollect (map (keyed_batch m shape dflt) kxss) ws (present numToCollect kx)
      = inclusion_chance numToCollect ?kxs kx 0 ws"
    by (rule feed_expect_inclusion [OF start cap keys _ _ row enough]) simp_all
  moreover have "\<not> holds_row numToCollect kx ws"
    using empty(3,5) by (auto simp: holds_row_def list_ex_iff)
  ultimately show "feed_expect numToCollect (map (keyed_batch m shape dflt) kxss) ws
      (present numToCollect kx) = of_int numToCollect / of_nat (length ?kxs)"
    using row by (simp add: inclusion_chance_def)
next
  show "\<forall>inp (w :: ('b, 'm, 'g) workspace) i g.
          already_in_pool inp w i \<longrightarrow> sample_row_expect numToCollect inp i w g = g (None, w)"
    by (simp add: sample_row_expect_def reaches_draw_def sample_row_def)
qed

theorem reservoir_inclusion_probability_witness:
  "(0::int) < 2
   \<and> 2 \<le> int (length (concat [[(1::int, CHR ''a''), (2, CHR ''b'')], [(3, CHR ''c'')]]))
   \<and> distinct (map fst (concat [[(1::int, CHR ''a''), (2, CHR ''b'')], [(3, CHR ''c'')]]))
   \<and> (3, CHR ''c'') \<in> set (concat [[(1::int, CHR ''a''), (2, CHR ''b'')], [(3, CHR ''c'')]])
   \<and> feed_expect 2
        (map (keyed_batch (1::nat) [] (CHR ''_'')) [[(1, CHR ''a''), (2, CHR ''b'')], [(3, CHR ''c'')]])
        (empty_workspace 1 (CHR ''_'') 0 (0::int)) (present 2 (3, CHR ''c'')) = 2 / 3
   \<and> already_in_pool (keyed_batch (1::nat) [] (CHR ''_'') [(7, CHR ''z'')]) example_pool 0
   \<and> sample_row_expect 2 (keyed_batch (1::nat) [] (CHR ''_'') [(7, CHR ''z'')]) 0 example_pool
        (present 2 (7, CHR ''a'')) = 1"
proof -
  let ?ws = "empty_workspace (1::nat) (CHR ''_'') 0 (0::int)"
  let ?kxss = "[[(1::int, CHR ''a''), (2, CHR ''b'')], [(3, CHR ''c'')]]"
  let ?inp = "keyed_batch (1::nat) [] (CHR ''_'') [(7, CHR ''z'')]"
  have e: "\<not> 0 < tsize (RESERVOIR ?ws)" "NUM_VISITED_dims ?ws = []" "NUM_VISITED ?ws = 0"
    "OBJECT_TO_POS_MAP ?ws = Some Map.empty" "POS_TO_OBJECT ?ws = Some (\<lambda>pos. 0)"
    by (simp_all add: operand_defs tsize_def)
  have c: "(0::int) < 2" by simp
  have n: "2 \<le> int (length (concat ?kxss))" by simp
  have d: "distinct (map fst (concat ?kxss))" by simp
  have r: "(3, CHR ''c'') \<in> set (concat ?kxss)" by simp
  note t = reservoir_inclusion_probability [OF c n e d r, of 1 "[]" "CHR ''_''"]
  from t have "feed_expect 2 (map (keyed_batch (1::nat) [] (CHR ''_'')) ?kxss) ?ws
      (present 2 (3, CHR ''c'')) = of_int 2 / of_nat (length (concat ?kxss))"
    by (rule conjunct1)
  then have p: "feed_expect 2 (map (keyed_batch (1::nat) [] (CHR ''_'')) ?kxss) ?ws
      (present 2 (3, CHR ''c'')) = 2 / 3"
    by simp
  have pool: "already_in_pool ?inp example_pool 0"
    by (simp add: already_in_pool_def operand_defs example_pool_def)
  from t pool have "sample_row_expect 2 ?inp 0 example_pool (present 2 (7, CHR ''a''))
      = present 2 (7, CHR ''a'') (None, example_pool)"
    by blast
  also have "\<dots> = 1"
    by code_simp
  finally have q: "sample_row_expect 2 ?inp 0 example_pool (present 2 (7, CHR ''a'')) = 1" .
  from c n d r p pool q show ?thesis by blast
qed

end
